theory Spec2Isabelle
  imports Main "HOL-Library.AList" "HOL-Library.Sublist"
begin

section \<open>Data model (workflow-builder.ts)\<close>

text \<open>
  A step's configuration bag is opaque to the engine; \<open>None\<close> stands for a missing
  (undefined) bag, which only the validator's NO_CONFIG warning looks at. The type tag is
  kept as a string: the executor's \<open>switch\<close> has a default branch and the validator
  checks membership in the closed set at run time.
\<close>

type_synonym config = "(string \<times> string) list"

record WorkflowStep =
  step_id :: string
  step_type :: string
  step_name :: string
  step_config :: "config option"
  dependencies :: "string list"

text \<open>The payload of a step: \<open>Flag k\<close> is the object \<open>{k: true}\<close>, \<open>Null\<close> is null.\<close>

datatype payload = Null | Flag string

text \<open>An Error object is represented by its message.\<close>

record StepResult =
  stepId :: string
  success :: bool
  sr_output :: payload
  duration :: int
  error :: "string option"

record WorkflowResult =
  wr_success :: bool
  stepResults :: "(string \<times> StepResult) list"
  wr_duration :: int
  errors :: "string list"

text \<open>
  The data part of a Workflow (its \<open>execute\<close> method is the function
  \<open>workflow_execute\<close> below).
\<close>

record Workflow =
  wf_id :: string
  wf_name :: string
  wf_description :: "string option"
  steps :: "WorkflowStep list"

text \<open>
  \<open>Date.now()\<close> is an input of the program: \<open>clock k\<close> is the value of the k-th
  reading, and every function that reads the clock threads the number of readings made so
  far. Nothing is assumed about the readings (they need not increase).
\<close>

type_synonym clock = "nat \<Rightarrow> int"

text \<open>
  A JavaScript \<open>Map\<close> keeps its keys in insertion order and \<open>set\<close> on a present key
  replaces the value in place: this is \<open>AList.update\<close> on an association list, and
  \<open>get\<close> is \<open>map_of\<close>.
\<close>

type_synonym 'v jsmap = "(string \<times> 'v) list"

text \<open>\<open>new Set(xs)\<close>: the elements in order of first occurrence.\<close>

fun new_Set :: "string list \<Rightarrow> string list" where
  "new_Set [] = []"
| "new_Set (x # xs) = x # filter (\<lambda>y. y \<noteq> x) (new_Set xs)"

text \<open>\<open>xs.join(sep)\<close>.\<close>

fun join :: "string \<Rightarrow> string list \<Rightarrow> string" where
  "join sep [] = []"
| "join sep [x] = x"
| "join sep (x # y # ys) = x @ sep @ join sep (y # ys)"

text \<open>
  \<open>s.trim().length === 0\<close>: the string consists of white space only (the white-space
  characters that fit a \<open>char\<close>: tab, line feed, vertical tab, form feed, carriage return,
  space and no-break space).
\<close>

definition is_ws :: "char \<Rightarrow> bool" where
  "is_ws c = (of_char c \<in> {9, 10, 11, 12, 13, 32, 160 :: nat})"

definition blank :: "string \<Rightarrow> bool" where
  "blank s = list_all is_ws s"

section \<open>FlowValidator (flow-validators)\<close>

record ValidationError =
  message :: string
  code :: string
  ve_stepId :: "string option"
  severity :: string

record ValidationResult =
  valid :: bool
  v_errors :: "ValidationError list"
  v_warnings :: "ValidationError list"

definition mk_error :: "string \<Rightarrow> string \<Rightarrow> string option \<Rightarrow> ValidationError" where
  "mk_error m c s = \<lparr>message = m, code = c, ve_stepId = s, severity = ''error''\<rparr>"

definition mk_warning :: "string \<Rightarrow> string \<Rightarrow> string option \<Rightarrow> ValidationError" where
  "mk_warning m c s = \<lparr>message = m, code = c, ve_stepId = s, severity = ''warning''\<rparr>"

text \<open>\<open>validateStep\<close>: the checks in the order of the source.\<close>

definition validateStep :: "WorkflowStep \<Rightarrow> WorkflowStep list \<Rightarrow> ValidationResult" where
  "validateStep step allSteps =
    (let e1 = (if step_id step = [] then
                 [mk_error ''Step must have an ID'' ''MISSING_STEP_ID'' (Some (step_id step))]
               else []);
         e2 = (if step_name step = [] \<or> blank (step_name step) then
                 [mk_error ''Step must have a name'' ''MISSING_STEP_NAME'' (Some (step_id step))]
               else []);
         e3 = (if step_type step = [] then
                 [mk_error ''Step must have a type'' ''MISSING_STEP_TYPE'' (Some (step_id step))]
               else []);
         e4 = map (\<lambda>depId. mk_error (''Step depends on non-existent step: '' @ depId)
                      ''INVALID_DEPENDENCY'' (Some (step_id step)))
                (filter (\<lambda>depId. \<not> list_ex (\<lambda>s. step_id s = depId) allSteps)
                   (dependencies step));
         w = (if step_config step = None then
                [mk_warning ''Step has no configuration'' ''NO_CONFIG'' (Some (step_id step))]
              else []);
         es = e1 @ e2 @ e3 @ e4
     in \<lparr>valid = (es = []), v_errors = es, v_warnings = w\<rparr>)"

subsection \<open>Cycle detection\<close>

text \<open>
  The closure \<open>dfs\<close> of \<open>detectCircularDependencies\<close> mutates three collections it
  shares with its caller (\<open>visited\<close>, \<open>recursionStack\<close>, \<open>cycles\<close>) and the array
  \<open>path\<close> it is passed; they are the state that the model passes through.
\<close>

record dfs_state =
  visited :: "string set"
  recursionStack :: "string set"
  path :: "string list"
  cycles :: "string list"

text \<open>\<open>graph.get(nodeId) || []\<close>.\<close>

definition graph_get :: "(string list) jsmap \<Rightarrow> string \<Rightarrow> string list" where
  "graph_get graph nodeId = (case map_of graph nodeId of Some ds \<Rightarrow> ds | None \<Rightarrow> [])"

text \<open>
  \<open>path.slice(path.indexOf(neighbor))\<close>: from the first occurrence of the neighbour on;
  when the neighbour is not on the path \<open>indexOf\<close> is -1 and \<open>slice(-1)\<close> is the last
  element.
\<close>

definition slice_from :: "string \<Rightarrow> string list \<Rightarrow> string list" where
  "slice_from neighbor p =
     (if neighbor \<in> set p then dropWhile (\<lambda>x. x \<noteq> neighbor) p
      else if p = [] then [] else [last p])"

text \<open>
  \<open>dfs\<close> is the closure's body up to its loop, \<open>dfs_neighbors\<close> the loop over the
  neighbours with its two early returns. After a \<open>return true\<close> the recursion stack and
  the path are left as they are, as in the source.
\<close>

function dfs :: "(string list) jsmap \<Rightarrow> string \<Rightarrow> dfs_state \<Rightarrow> bool \<times> dfs_state"
  and dfs_neighbors :: "(string list) jsmap \<Rightarrow> string list \<Rightarrow> dfs_state \<Rightarrow> bool \<times> dfs_state"
where
  "dfs graph nodeId st =
     (case dfs_neighbors graph (graph_get graph nodeId)
             (st\<lparr>visited := insert nodeId (visited st),
                 recursionStack := insert nodeId (recursionStack st),
                 path := path st @ [nodeId]\<rparr>) of
        (True, st') \<Rightarrow> (True, st')
      | (False, st') \<Rightarrow>
          (False, st'\<lparr>recursionStack := recursionStack st' - {nodeId},
                      path := butlast (path st')\<rparr>))"
| "dfs_neighbors graph [] st = (False, st)"
| "dfs_neighbors graph (neighbor # rest) st =
     (if neighbor \<notin> visited st then
        (case dfs graph neighbor st of
           (True, st') \<Rightarrow> (True, st')
         | (False, st') \<Rightarrow> dfs_neighbors graph rest st')
      else if neighbor \<in> recursionStack st then
        (True, st\<lparr>cycles := cycles st @ [join '' -> '' (slice_from neighbor (path st))]\<rparr>)
      else dfs_neighbors graph rest st)"
  by pat_completeness auto

text \<open>
  Termination of the search. Every neighbour is a member of some dependency list of the
  graph, a finite set; each call of \<open>dfs\<close> from the loop is on a node not yet visited and
  marks it, and the visited set only grows, so the number of unvisited nodes decreases.
\<close>

definition graph_nodes :: "(string list) jsmap \<Rightarrow> string set" where
  "graph_nodes graph = set (concat (map snd graph))"

lemma graph_get_subset: "set (graph_get graph n) \<subseteq> graph_nodes graph"
proof (cases "map_of graph n")
  case None
  then show ?thesis by (simp add: graph_get_def)
next
  case (Some ds)
  then have "(n, ds) \<in> set graph" by (rule map_of_SomeD)
  then have "set ds \<subseteq> graph_nodes graph" by (force simp: graph_nodes_def)
  with Some show ?thesis by (simp add: graph_get_def)
qed

lemma dfs_visited_mono:
  "dfs_dfs_neighbors_dom (Inl (g, n, st)) \<Longrightarrow> visited st \<subseteq> visited (snd (dfs g n st))"
  "dfs_dfs_neighbors_dom (Inr (g, ns, st)) \<Longrightarrow> visited st \<subseteq> visited (snd (dfs_neighbors g ns st))"
  by (induct rule: dfs_dfs_neighbors.pinduct)
     (auto simp: dfs.psimps dfs_neighbors.psimps split: prod.splits bool.splits if_splits, blast)

definition dfs_measure :: "((string list) jsmap \<times> string \<times> dfs_state) + ((string list) jsmap \<times> string list \<times> dfs_state) \<Rightarrow> nat \<times> nat \<times> nat" where
  "dfs_measure x = (case x of
      Inl (g, n, st) \<Rightarrow> (card (graph_nodes g - insert n (visited st)), 1, 0)
    | Inr (g, ns, st) \<Rightarrow> (card ((graph_nodes g \<union> set ns) - visited st), 0, length ns))"

definition dfs_rel ::
  "((((string list) jsmap \<times> string \<times> dfs_state) + ((string list) jsmap \<times> string list \<times> dfs_state)) \<times>
    (((string list) jsmap \<times> string \<times> dfs_state) + ((string list) jsmap \<times> string list \<times> dfs_state))) set" where
  "dfs_rel = inv_image (less_than <*lex*> less_than <*lex*> less_than) dfs_measure"

lemma wf_dfs_rel: "wf dfs_rel"
  unfolding dfs_rel_def by (intro wf_inv_image wf_lex_prod wf_less_than)

lemma dfs_rel_enter:
  "(Inr (graph, graph_get graph nodeId,
          st\<lparr>visited := insert nodeId (visited st),
               recursionStack := insert nodeId (recursionStack st), path := path st @ [nodeId]\<rparr>),
        Inl (graph, nodeId, st)) \<in> dfs_rel"
proof -
  have "(graph_nodes graph \<union> set (graph_get graph nodeId)) = graph_nodes graph"
    using graph_get_subset by blast
  then show ?thesis by (simp add: dfs_rel_def dfs_measure_def)
qed

lemma dfs_rel_descend:
  assumes "neighbor \<notin> visited st"
  shows "(Inl (graph, neighbor, st), Inr (graph, neighbor # rest, st)) \<in> dfs_rel"
proof -
  have fin: "finite ((graph_nodes graph \<union> set (neighbor # rest)) - visited st)"
    by (simp add: graph_nodes_def)
  have "graph_nodes graph - insert neighbor (visited st)
          \<subset> (graph_nodes graph \<union> set (neighbor # rest)) - visited st"
    using assms by auto
  then have "card (graph_nodes graph - insert neighbor (visited st))
          < card ((graph_nodes graph \<union> set (neighbor # rest)) - visited st)"
    using fin psubset_card_mono by blast
  then show ?thesis by (simp add: dfs_rel_def dfs_measure_def)
qed

lemma dfs_rel_next:
  assumes "visited st \<subseteq> visited st'"
  shows "(Inr (graph, rest, st'), Inr (graph, neighbor # rest, st)) \<in> dfs_rel"
proof -
  have "(graph_nodes graph \<union> set rest) - visited st'
          \<subseteq> (graph_nodes graph \<union> set (neighbor # rest)) - visited st"
    using assms by auto
  moreover have "finite ((graph_nodes graph \<union> set (neighbor # rest)) - visited st)"
    by (simp add: graph_nodes_def)
  ultimately have "card ((graph_nodes graph \<union> set rest) - visited st')
          \<le> card ((graph_nodes graph \<union> set (neighbor # rest)) - visited st)"
    using card_mono by blast
  then show ?thesis by (auto simp add: dfs_rel_def dfs_measure_def)
qed

lemma dfs_total: "All dfs_dfs_neighbors_dom"
proof (relation dfs_rel)
  show "wf dfs_rel" by (rule wf_dfs_rel)
next
  fix graph neighbor rest and st :: dfs_state and x y
  assume "(x, y) = dfs graph neighbor st" "dfs_dfs_neighbors_dom (Inl (graph, neighbor, st))"
  then have "visited st \<subseteq> visited y"
    using dfs_visited_mono(1) [of graph neighbor st] by (metis snd_conv)
  then show "(Inr (graph, rest, y), Inr (graph, neighbor # rest, st)) \<in> dfs_rel"
    by (rule dfs_rel_next)
qed (simp_all add: dfs_rel_enter dfs_rel_descend dfs_rel_next)

termination dfs
  by (rule dfs_total)

declare dfs.simps [simp del]

text \<open>
  \<open>detectCircularDependencies\<close>: the graph is a \<open>Map\<close> filled in step order (a later
  step with the same id replaces the earlier entry); every root search gets a fresh
  \<open>path\<close>, and its boolean result is dropped.
\<close>

definition build_graph :: "WorkflowStep list \<Rightarrow> (string list) jsmap" where
  "build_graph ss = foldl (\<lambda>g s. AList.update (step_id s) (dependencies s) g) [] ss"

fun dfs_roots :: "(string list) jsmap \<Rightarrow> WorkflowStep list \<Rightarrow> dfs_state \<Rightarrow> dfs_state" where
  "dfs_roots graph [] st = st"
| "dfs_roots graph (s # rest) st =
     (if step_id s \<notin> visited st
      then dfs_roots graph rest (snd (dfs graph (step_id s) (st\<lparr>path := []\<rparr>)))
      else dfs_roots graph rest st)"

definition dfs_init :: dfs_state where
  "dfs_init = \<lparr>visited = {}, recursionStack = {}, path = [], cycles = []\<rparr>"

definition detectCircularDependencies :: "WorkflowStep list \<Rightarrow> string list" where
  "detectCircularDependencies ss = cycles (dfs_roots (build_graph ss) ss dfs_init)"

subsection \<open>validate and canExecute\<close>

definition validate :: "Workflow \<Rightarrow> ValidationResult" where
  "validate workflow =
    (let e1 = (if wf_id workflow = [] then
                 [mk_error ''Workflow must have an ID'' ''MISSING_ID'' None] else []);
         e2 = (if wf_name workflow = [] \<or> blank (wf_name workflow) then
                 [mk_error ''Workflow must have a name'' ''MISSING_NAME'' None] else []);
         e3 = (if steps workflow = [] then
                 [mk_error ''Workflow must have at least one step'' ''NO_STEPS'' None] else []);
         vs = map (\<lambda>s. validateStep s (steps workflow)) (steps workflow);
         e4 = concat (map v_errors vs);
         ws = concat (map v_warnings vs);
         circularDeps = detectCircularDependencies (steps workflow);
         e5 = (if length circularDeps > 0 then
                 [mk_error (''Circular dependencies detected: '' @ join '', '' circularDeps)
                    ''CIRCULAR_DEPS'' None]
               else []);
         es = e1 @ e2 @ e3 @ e4 @ e5
     in \<lparr>valid = (es = []), v_errors = es, v_warnings = ws\<rparr>)"

definition validTypes :: "string list" where
  "validTypes = [''analysis'', ''fix'', ''test'', ''deploy'', ''custom'']"

text \<open>\<open>canExecute\<close> returns \<open>(executable, reason)\<close>.\<close>

definition canExecute :: "Workflow \<Rightarrow> bool \<times> string option" where
  "canExecute workflow =
    (let validation = validate workflow in
     if \<not> valid validation then
       (False, Some (case v_errors validation of
                       [] \<Rightarrow> ''Validation failed''
                     | e # _ \<Rightarrow> if message e = [] then ''Validation failed'' else message e))
     else (case List.find (\<lambda>s. step_type s \<notin> set validTypes) (steps workflow) of
             Some s \<Rightarrow> (False, Some (''Invalid step type: '' @ step_type s))
           | None \<Rightarrow> (True, None)))"

section \<open>WorkflowBuilder (workflow-builder)\<close>

text \<open>Decimal rendering of a number inside a template string.\<close>

definition digit_char :: "nat \<Rightarrow> char" where
  "digit_char d = char_of (48 + d)"

fun decimal :: "nat \<Rightarrow> string" where
  "decimal n =
     (if 10 \<le> n then decimal (n div 10) @ [digit_char (n mod 10)] else [digit_char n])"

declare decimal.simps [simp del]

text \<open>A negative number is rendered with a leading minus sign.\<close>

definition decimal_int :: "int \<Rightarrow> string" where
  "decimal_int i = (if 0 \<le> i then decimal (nat i) else CHR ''-'' # decimal (nat (- i)))"

record WorkflowBuilder =
  b_steps :: "WorkflowStep list"
  workflowId :: string
  workflowName :: string
  workflowDescription :: "string option"

text \<open>
  The constructor: \<open>nm\<close> is the optional name, \<open>now\<close> the reading of \<open>Date.now()\<close>.
\<close>

definition new_WorkflowBuilder :: "string option \<Rightarrow> int \<Rightarrow> WorkflowBuilder" where
  "new_WorkflowBuilder nm now =
     \<lparr>b_steps = [],
      workflowId = ''workflow_'' @ decimal_int now,
      workflowName = (case nm of None \<Rightarrow> ''Unnamed Workflow'' | Some n \<Rightarrow> n),
      workflowDescription = None\<rparr>"

definition withDescription :: "string \<Rightarrow> WorkflowBuilder \<Rightarrow> WorkflowBuilder" where
  "withDescription d b = b\<lparr>workflowDescription := Some d\<rparr>"

text \<open>The id of the next step: \<open>`step_${this.steps.length + 1}`\<close>.\<close>

definition next_id :: "WorkflowBuilder \<Rightarrow> string" where
  "next_id b = ''step_'' @ decimal (length (b_steps b) + 1)"

text \<open>An omitted configuration argument defaults to the empty object.\<close>

definition config_arg :: "config option \<Rightarrow> config option" where
  "config_arg c = (case c of None \<Rightarrow> Some [] | Some x \<Rightarrow> Some x)"

definition prevStepId :: "WorkflowBuilder \<Rightarrow> string" where
  "prevStepId b = (if length (b_steps b) > 0 then step_id (last (b_steps b)) else [])"

text \<open>\<open>prevStepId ? [prevStepId] : []\<close>: the empty string is falsy.\<close>

definition prev_deps :: "WorkflowBuilder \<Rightarrow> string list" where
  "prev_deps b = (if prevStepId b \<noteq> [] then [prevStepId b] else [])"

definition push_step :: "WorkflowStep \<Rightarrow> WorkflowBuilder \<Rightarrow> WorkflowBuilder" where
  "push_step s b = b\<lparr>b_steps := b_steps b @ [s]\<rparr>"

definition addAnalysisStep :: "config option \<Rightarrow> WorkflowBuilder \<Rightarrow> WorkflowBuilder" where
  "addAnalysisStep c b =
     push_step \<lparr>step_id = next_id b, step_type = ''analysis'', step_name = ''Code Analysis'',
                step_config = config_arg c, dependencies = []\<rparr> b"

definition addAutoFixStep :: "config option \<Rightarrow> WorkflowBuilder \<Rightarrow> WorkflowBuilder" where
  "addAutoFixStep c b =
     push_step \<lparr>step_id = next_id b, step_type = ''fix'', step_name = ''Auto Fix'',
                step_config = config_arg c, dependencies = prev_deps b\<rparr> b"

definition addTestStep :: "config option \<Rightarrow> WorkflowBuilder \<Rightarrow> WorkflowBuilder" where
  "addTestStep c b =
     push_step \<lparr>step_id = next_id b, step_type = ''test'', step_name = ''Run Tests'',
                step_config = config_arg c, dependencies = prev_deps b\<rparr> b"

definition addDeployStep :: "config option \<Rightarrow> WorkflowBuilder \<Rightarrow> WorkflowBuilder" where
  "addDeployStep c b =
     push_step \<lparr>step_id = next_id b, step_type = ''deploy'', step_name = ''Deploy'',
                step_config = config_arg c, dependencies = prev_deps b\<rparr> b"

definition addCustomStep ::
  "string \<Rightarrow> config option \<Rightarrow> string list \<Rightarrow> WorkflowBuilder \<Rightarrow> WorkflowBuilder" where
  "addCustomStep nm c deps b =
     push_step \<lparr>step_id = next_id b, step_type = ''custom'', step_name = nm,
                step_config = config_arg c, dependencies = deps\<rparr> b"

text \<open>\<open>build\<close> copies the step list; the snapshot's data are the four fields.\<close>

definition build :: "WorkflowBuilder \<Rightarrow> Workflow" where
  "build b = \<lparr>wf_id = workflowId b, wf_name = workflowName b,
              wf_description = workflowDescription b, steps = b_steps b\<rparr>"

text \<open>
  A use of the fluent interface is a constructor call followed by a sequence of calls.
\<close>

datatype builder_call =
    WithDescription string
  | AddAnalysisStep "config option"
  | AddAutoFixStep "config option"
  | AddTestStep "config option"
  | AddDeployStep "config option"
  | AddCustomStep string "config option" "string list"

fun call :: "WorkflowBuilder \<Rightarrow> builder_call \<Rightarrow> WorkflowBuilder" where
  "call b (WithDescription d) = withDescription d b"
| "call b (AddAnalysisStep c) = addAnalysisStep c b"
| "call b (AddAutoFixStep c) = addAutoFixStep c b"
| "call b (AddTestStep c) = addTestStep c b"
| "call b (AddDeployStep c) = addDeployStep c b"
| "call b (AddCustomStep nm c deps) = addCustomStep nm c deps b"

definition assemble :: "string option \<Rightarrow> int \<Rightarrow> builder_call list \<Rightarrow> WorkflowBuilder" where
  "assemble nm now calls = foldl call (new_WorkflowBuilder nm now) calls"

subsection \<open>The builder's own validate\<close>

record cycle_state =
  c_visited :: "string set"
  c_recursionStack :: "string set"

definition find_step :: "WorkflowStep list \<Rightarrow> string \<Rightarrow> WorkflowStep option" where
  "find_step ss sid = List.find (\<lambda>s. step_id s = sid) ss"

text \<open>
  The closure \<open>hasCycle\<close> and its loop over the dependencies of the step found (no loop
  when \<open>find\<close> returns undefined).
\<close>

function hasCycle :: "WorkflowStep list \<Rightarrow> string \<Rightarrow> cycle_state \<Rightarrow> bool \<times> cycle_state"
  and hasCycle_deps :: "WorkflowStep list \<Rightarrow> string list \<Rightarrow> cycle_state \<Rightarrow> bool \<times> cycle_state"
where
  "hasCycle ss sid st =
     (case hasCycle_deps ss
             (case find_step ss sid of Some step \<Rightarrow> dependencies step | None \<Rightarrow> [])
             (st\<lparr>c_visited := insert sid (c_visited st),
                 c_recursionStack := insert sid (c_recursionStack st)\<rparr>) of
        (True, st') \<Rightarrow> (True, st')
      | (False, st') \<Rightarrow> (False, st'\<lparr>c_recursionStack := c_recursionStack st' - {sid}\<rparr>))"
| "hasCycle_deps ss [] st = (False, st)"
| "hasCycle_deps ss (depId # rest) st =
     (if depId \<notin> c_visited st then
        (case hasCycle ss depId st of
           (True, st') \<Rightarrow> (True, st')
         | (False, st') \<Rightarrow> hasCycle_deps ss rest st')
      else if depId \<in> c_recursionStack st then (True, st)
      else hasCycle_deps ss rest st)"
  by pat_completeness auto

text \<open>Termination, by the argument used for \<open>dfs\<close>.\<close>

definition step_deps :: "WorkflowStep list \<Rightarrow> string \<Rightarrow> string list" where
  "step_deps ss sid = (case find_step ss sid of Some step \<Rightarrow> dependencies step | None \<Rightarrow> [])"

definition dep_ids :: "WorkflowStep list \<Rightarrow> string set" where
  "dep_ids ss = set (concat (map dependencies ss))"

lemma step_deps_subset: "set (step_deps ss sid) \<subseteq> dep_ids ss"
proof (cases "find_step ss sid")
  case None
  then show ?thesis by (simp add: step_deps_def)
next
  case (Some step)
  then have "step \<in> set ss"
    by (auto simp: find_step_def find_Some_iff)
  then have "set (dependencies step) \<subseteq> dep_ids ss" by (force simp: dep_ids_def)
  with Some show ?thesis by (simp add: step_deps_def)
qed

lemma hasCycle_visited_mono:
  "hasCycle_hasCycle_deps_dom (Inl (ss, n, st)) \<Longrightarrow>
     c_visited st \<subseteq> c_visited (snd (hasCycle ss n st))"
  "hasCycle_hasCycle_deps_dom (Inr (ss, ns, st)) \<Longrightarrow>
     c_visited st \<subseteq> c_visited (snd (hasCycle_deps ss ns st))"
  by (induct rule: hasCycle_hasCycle_deps.pinduct)
     (auto simp: hasCycle.psimps hasCycle_deps.psimps split: prod.splits bool.splits if_splits,
      blast)

definition hasCycle_measure ::
  "(WorkflowStep list \<times> string \<times> cycle_state) + (WorkflowStep list \<times> string list \<times> cycle_state)
     \<Rightarrow> nat \<times> nat \<times> nat" where
  "hasCycle_measure x = (case x of
      Inl (ss, n, st) \<Rightarrow> (card (dep_ids ss - insert n (c_visited st)), 1, 0)
    | Inr (ss, ns, st) \<Rightarrow> (card ((dep_ids ss \<union> set ns) - c_visited st), 0, length ns))"

definition hasCycle_rel ::
  "(((WorkflowStep list \<times> string \<times> cycle_state) + (WorkflowStep list \<times> string list \<times> cycle_state)) \<times>
    ((WorkflowStep list \<times> string \<times> cycle_state) + (WorkflowStep list \<times> string list \<times> cycle_state))) set" where
  "hasCycle_rel = inv_image (less_than <*lex*> less_than <*lex*> less_than) hasCycle_measure"

lemma wf_hasCycle_rel: "wf hasCycle_rel"
  unfolding hasCycle_rel_def by (intro wf_inv_image wf_lex_prod wf_less_than)

lemma hasCycle_rel_enter:
  "(Inr (ss, step_deps ss sid,
          st\<lparr>c_visited := insert sid (c_visited st),
               c_recursionStack := insert sid (c_recursionStack st)\<rparr>),
        Inl (ss, sid, st)) \<in> hasCycle_rel"
proof -
  have "(dep_ids ss \<union> set (step_deps ss sid)) = dep_ids ss"
    using step_deps_subset by blast
  then show ?thesis by (simp add: hasCycle_rel_def hasCycle_measure_def)
qed

lemma hasCycle_rel_descend:
  assumes "depId \<notin> c_visited st"
  shows "(Inl (ss, depId, st), Inr (ss, depId # rest, st)) \<in> hasCycle_rel"
proof -
  have fin: "finite ((dep_ids ss \<union> set (depId # rest)) - c_visited st)"
    by (simp add: dep_ids_def)
  have "dep_ids ss - insert depId (c_visited st)
          \<subset> (dep_ids ss \<union> set (depId # rest)) - c_visited st"
    using assms by auto
  then have "card (dep_ids ss - insert depId (c_visited st))
          < card ((dep_ids ss \<union> set (depId # rest)) - c_visited st)"
    using fin psubset_card_mono by blast
  then show ?thesis by (simp add: hasCycle_rel_def hasCycle_measure_def)
qed

lemma hasCycle_rel_next:
  assumes "c_visited st \<subseteq> c_visited st'"
  shows "(Inr (ss, rest, st'), Inr (ss, depId # rest, st)) \<in> hasCycle_rel"
proof -
  have "(dep_ids ss \<union> set rest) - c_visited st'
          \<subseteq> (dep_ids ss \<union> set (depId # rest)) - c_visited st"
    using assms by auto
  moreover have "finite ((dep_ids ss \<union> set (depId # rest)) - c_visited st)"
    by (simp add: dep_ids_def)
  ultimately have "card ((dep_ids ss \<union> set rest) - c_visited st')
          \<le> card ((dep_ids ss \<union> set (depId # rest)) - c_visited st)"
    using card_mono by blast
  then show ?thesis by (auto simp add: hasCycle_rel_def hasCycle_measure_def)
qed

termination hasCycle
proof (relation hasCycle_rel)
  show "wf hasCycle_rel" by (rule wf_hasCycle_rel)
next
  fix ss sid and st :: cycle_state
  show "(Inr (ss, case find_step ss sid of None \<Rightarrow> [] | Some step \<Rightarrow> dependencies step,
              st\<lparr>c_visited := insert sid (c_visited st),
                   c_recursionStack := insert sid (c_recursionStack st)\<rparr>),
         Inl (ss, sid, st)) \<in> hasCycle_rel"
    using hasCycle_rel_enter [of ss sid st] by (simp add: step_deps_def)
next
  fix ss depId rest and st :: cycle_state and x y
  assume "(x, y) = hasCycle ss depId st" "hasCycle_hasCycle_deps_dom (Inl (ss, depId, st))"
  then have "c_visited st \<subseteq> c_visited y"
    using hasCycle_visited_mono(1) [of ss depId st] by (metis snd_conv)
  then show "(Inr (ss, rest, y), Inr (ss, depId # rest, st)) \<in> hasCycle_rel"
    by (rule hasCycle_rel_next)
qed (simp_all add: hasCycle_rel_descend hasCycle_rel_next)

declare hasCycle.simps [simp del]

text \<open>
  The loop over the steps with its \<open>break\<close>: the result says whether the
  circular-dependency message was pushed.
\<close>

fun hasCycle_roots :: "WorkflowStep list \<Rightarrow> WorkflowStep list \<Rightarrow> cycle_state \<Rightarrow> bool" where
  "hasCycle_roots ss [] st = False"
| "hasCycle_roots ss (s # rest) st =
     (if step_id s \<notin> c_visited st then
        (case hasCycle ss (step_id s) st of
           (True, st') \<Rightarrow> True
         | (False, st') \<Rightarrow> hasCycle_roots ss rest st')
      else hasCycle_roots ss rest st)"

text \<open>\<open>WorkflowBuilder.validate\<close> returns \<open>(valid, errors)\<close>.\<close>

definition builder_validate :: "WorkflowBuilder \<Rightarrow> bool \<times> string list" where
  "builder_validate b =
    (let e1 = (if length (b_steps b) = 0 then [''Workflow must have at least one step''] else []);
         e2 = (if hasCycle_roots (b_steps b) (b_steps b) \<lparr>c_visited = {}, c_recursionStack = {}\<rparr>
               then [''Workflow contains circular dependencies''] else []);
         es = e1 @ e2
     in (es = [], es))"

subsection \<open>The execute method of a built workflow\<close>

text \<open>The placeholder \<open>executeStep\<close> of the builder's file: it returns \<open>{success: true}\<close>.\<close>

definition placeholder_executeStep :: "WorkflowStep \<Rightarrow> payload" where
  "placeholder_executeStep step = Flag ''success''"

record exec_state =
  e_results :: "StepResult jsmap"
  e_errors :: "string list"
  e_ticks :: nat

text \<open>
  The dependency loop throws at the first dependency with no result or a failed one.
\<close>

definition failed_dep :: "StepResult jsmap \<Rightarrow> string list \<Rightarrow> string option" where
  "failed_dep results deps =
     List.find (\<lambda>depId. case map_of results depId of None \<Rightarrow> True | Some r \<Rightarrow> \<not> success r) deps"

text \<open>One iteration of the loop: two clock readings, one result stored in either branch.\<close>

definition workflow_step :: "clock \<Rightarrow> exec_state \<Rightarrow> WorkflowStep \<Rightarrow> exec_state" where
  "workflow_step clk st step =
    (let stepStartTime = clk (e_ticks st);
         d = clk (e_ticks st + 1) - stepStartTime
     in case failed_dep (e_results st) (dependencies step) of
          None \<Rightarrow>
            st\<lparr>e_results := AList.update (step_id step)
                    \<lparr>stepId = step_id step, success = True,
                     sr_output = placeholder_executeStep step, duration = d, error = None\<rparr>
                    (e_results st),
               e_ticks := e_ticks st + 2\<rparr>
        | Some depId \<Rightarrow>
            (let err = ''Dependency '' @ depId @ '' failed or not completed'' in
             st\<lparr>e_results := AList.update (step_id step)
                    \<lparr>stepId = step_id step, success = False,
                     sr_output = Null, duration = d, error = Some err\<rparr>
                    (e_results st),
                e_errors := e_errors st @ [err],
                e_ticks := e_ticks st + 2\<rparr>))"

definition workflow_execute :: "clock \<Rightarrow> Workflow \<Rightarrow> WorkflowResult" where
  "workflow_execute clk w =
    (let startTime = clk 0;
         st = foldl (workflow_step clk) \<lparr>e_results = [], e_errors = [], e_ticks = 1\<rparr> (steps w)
     in \<lparr>wr_success = (length (e_errors st) = 0), stepResults = e_results st,
         wr_duration = clk (e_ticks st) - startTime, errors = e_errors st\<rparr>)"

section \<open>FlowExecutor (flow-executor)\<close>

record ExecutionOptionsArg =
  a_verbose :: "bool option"
  a_timeout :: "int option"
  a_continueOnError :: "bool option"
  a_parallel :: "bool option"

record ExecutionOptions =
  verbose :: bool
  timeout :: int
  continueOnError :: bool
  parallel :: bool

text \<open>The constructor fills in the defaults.\<close>

definition new_FlowExecutor :: "ExecutionOptionsArg \<Rightarrow> ExecutionOptions" where
  "new_FlowExecutor a =
     \<lparr>verbose = (case a_verbose a of None \<Rightarrow> False | Some v \<Rightarrow> v),
      timeout = (case a_timeout a of None \<Rightarrow> 300000 | Some t \<Rightarrow> t),
      continueOnError = (case a_continueOnError a of None \<Rightarrow> False | Some c \<Rightarrow> c),
      parallel = (case a_parallel a of None \<Rightarrow> False | Some q \<Rightarrow> q)\<rparr>"

text \<open>
  The execution context of the source (\<open>currentStep\<close>, \<open>completedSteps\<close>,
  \<open>startTime\<close>; its \<open>options\<close> are passed next to it), with three fields that record
  what the run does besides filling the result map:
  \<^item> \<open>ticks\<close>: the number of clock readings made so far;
  \<^item> \<open>started\<close>: one entry for every entry into \<open>executeStep\<close> (the place of the
    "Executing step" log line), with the result map as it was at that moment;
  \<^item> \<open>unhandled\<close>: the errors thrown inside a completion callback of
    \<open>executeParallel\<close>. They reject the promise returned by \<open>then\<close>, which nothing
    awaits or catches, so they never reach \<open>execute\<close>.
\<close>

record ExecutionContext =
  currentStep :: "WorkflowStep option"
  completedSteps :: "StepResult jsmap"
  startTime :: int
  ticks :: nat
  started :: "(string \<times> StepResult jsmap) list"
  unhandled :: "string list"

definition executeStepByType :: "WorkflowStep \<Rightarrow> string + payload" where
  "executeStepByType step =
     (if step_type step = ''analysis'' then Inr (Flag ''analyzed'')
      else if step_type step = ''fix'' then Inr (Flag ''fixed'')
      else if step_type step = ''test'' then Inr (Flag ''tested'')
      else if step_type step = ''deploy'' then Inr (Flag ''deployed'')
      else if step_type step = ''custom'' then Inr (Flag ''executed'')
      else Inl (''Unknown step type: '' @ step_type step))"

definition dependenciesMet :: "WorkflowStep \<Rightarrow> StepResult jsmap \<Rightarrow> bool" where
  "dependenciesMet step completed =
     list_all (\<lambda>depId. case map_of completed depId of None \<Rightarrow> False | Some r \<Rightarrow> success r)
       (dependencies step)"

definition allStepsSucceeded :: "StepResult jsmap \<Rightarrow> bool" where
  "allStepsSucceeded results = list_all success (map snd results)"

subsection \<open>executeStep\<close>

text \<open>
  \<open>executeStep\<close> is an async function. Its body runs synchronously up to
  \<open>await this.executeStepByType(step)\<close>: it reads the clock for \<open>startTime\<close> and for the
  timeout check, and on a timeout the \<open>throw\<close> is caught by the function's own
  \<open>catch\<close>, which reads the clock once more and returns the failed result, so its
  promise is already resolved. Otherwise \<open>executeStepByType\<close> (no await inside) has run
  to its end and the function is suspended on a settled promise; its continuation reads
  the clock for the duration and returns the result, in the try or in the catch branch.
\<close>

datatype step_promise =
    Resolved StepResult
  | Suspended int "string + payload"

definition executeStep_begin ::
  "ExecutionOptions \<Rightarrow> clock \<Rightarrow> WorkflowStep \<Rightarrow> ExecutionContext
     \<Rightarrow> step_promise \<times> ExecutionContext" where
  "executeStep_begin opts clk step ctx =
    (let t0 = clk (ticks ctx);
         elapsed = clk (ticks ctx + 1) - startTime ctx;
         ctx' = ctx\<lparr>started := started ctx @ [(step_id step, completedSteps ctx)]\<rparr>
     in if elapsed > timeout opts then
          (Resolved \<lparr>stepId = step_id step, success = False, sr_output = Null,
                     duration = clk (ticks ctx + 2) - t0,
                     error = Some ''Workflow execution timeout''\<rparr>,
           ctx'\<lparr>ticks := ticks ctx + 3\<rparr>)
        else (Suspended t0 (executeStepByType step), ctx'\<lparr>ticks := ticks ctx + 2\<rparr>))"

definition executeStep_resume ::
  "clock \<Rightarrow> WorkflowStep \<Rightarrow> int \<Rightarrow> string + payload \<Rightarrow> ExecutionContext
     \<Rightarrow> StepResult \<times> ExecutionContext" where
  "executeStep_resume clk step t0 outcome ctx =
    (let d = clk (ticks ctx) - t0;
         ctx' = ctx\<lparr>ticks := ticks ctx + 1\<rparr>
     in case outcome of
          Inr out \<Rightarrow>
            (\<lparr>stepId = step_id step, success = True, sr_output = out, duration = d,
              error = None\<rparr>, ctx')
        | Inl err \<Rightarrow>
            (\<lparr>stepId = step_id step, success = False, sr_output = Null, duration = d,
              error = Some err\<rparr>, ctx'))"

text \<open>Awaited at once, as \<open>executeSequential\<close> does.\<close>

definition executeStep ::
  "ExecutionOptions \<Rightarrow> clock \<Rightarrow> WorkflowStep \<Rightarrow> ExecutionContext
     \<Rightarrow> StepResult \<times> ExecutionContext" where
  "executeStep opts clk step ctx =
    (case executeStep_begin opts clk step ctx of
       (Resolved r, ctx') \<Rightarrow> (r, ctx')
     | (Suspended t0 outcome, ctx') \<Rightarrow> executeStep_resume clk step t0 outcome ctx')"

subsection \<open>executeSequential\<close>

text \<open>The first component of the result is the error thrown, if any.\<close>

fun executeSequential ::
  "ExecutionOptions \<Rightarrow> clock \<Rightarrow> WorkflowStep list \<Rightarrow> ExecutionContext
     \<Rightarrow> string option \<times> ExecutionContext" where
  "executeSequential opts clk [] ctx = (None, ctx)"
| "executeSequential opts clk (step # rest) ctx =
    (let ctx1 = ctx\<lparr>currentStep := Some step\<rparr> in
     if \<not> dependenciesMet step (completedSteps ctx1) then
       (Some (''Dependencies not met for step: '' @ step_name step), ctx1)
     else
       (case executeStep opts clk step ctx1 of
          (result, ctx2) \<Rightarrow>
            (let ctx3 = ctx2\<lparr>completedSteps :=
                               AList.update (step_id step) result (completedSteps ctx2)\<rparr>
             in if \<not> success result \<and> \<not> continueOnError opts then
                  (Some (''Step failed: '' @ step_name step), ctx3)
                else executeSequential opts clk rest ctx3)))"

subsection \<open>executeParallel\<close>

text \<open>
  One iteration of the while loop. The for loop over \<open>ready\<close> is synchronous: every ready
  step is removed from \<open>pending\<close>, entered (\<open>executeStep_begin\<close>) and put into
  \<open>executing\<close> with its completion callback registered, before any callback runs.
  The loop then awaits \<open>Promise.race\<close> of the promises in \<open>executing\<close>. With the
  \<open>executeStepByType\<close> of the source (it never waits for anything) and the job queue
  of native promises and \<open>await\<close> (ECMAScript 2017 and later), every promise of the round
  settles within the microtasks that this one await lets run: the job queue holds, in the
  order of \<open>ready\<close>, the callback of each promise that was resolved at once and the
  continuation of each suspended \<open>executeStep\<close>; a continuation resolves its promise,
  which queues its callback behind them; the continuation of the loop is queued only when
  the first reaction of the race runs, behind all of these. So the loop resumes with
  \<open>executing\<close> empty, and \<open>executing\<close> is empty at the head of every iteration: the
  model keeps it as a value local to the round. An error thrown by a callback rejects the
  promise that \<open>then\<close> returned and goes nowhere else; what the host does with an
  unhandled rejection (a warning, or ending the process) is outside the model.
\<close>

text \<open>
  \<open>steps.find(s => s.id === stepId)!\<close> never fails on an id of \<open>pending\<close>
  (\<open>find_step_pending\<close> below); the model counts a step not found as not ready.
\<close>

definition is_ready :: "WorkflowStep list \<Rightarrow> StepResult jsmap \<Rightarrow> string \<Rightarrow> bool" where
  "is_ready ss completed sid =
     (case find_step ss sid of None \<Rightarrow> False | Some step \<Rightarrow> dependenciesMet step completed)"

text \<open>The for loop over \<open>ready\<close>: the promises started, in order.\<close>

fun start_ready ::
  "ExecutionOptions \<Rightarrow> clock \<Rightarrow> WorkflowStep list \<Rightarrow> string list \<Rightarrow> ExecutionContext
     \<Rightarrow> (WorkflowStep \<times> step_promise) list \<times> ExecutionContext" where
  "start_ready opts clk ss [] ctx = ([], ctx)"
| "start_ready opts clk ss (sid # rest) ctx =
    (case find_step ss sid of
       None \<Rightarrow> start_ready opts clk ss rest ctx
     | Some step \<Rightarrow>
        (case executeStep_begin opts clk step (ctx\<lparr>currentStep := Some step\<rparr>) of
           (p, ctx1) \<Rightarrow>
             (case start_ready opts clk ss rest ctx1 of
                (ps, ctx2) \<Rightarrow> ((step, p) # ps, ctx2))))"

text \<open>
  The completion callback: it stores the result, removes the step from \<open>executing\<close>
  and, for a failed step without continue-on-error, throws inside the callback.
\<close>

definition on_complete ::
  "ExecutionOptions \<Rightarrow> WorkflowStep \<Rightarrow> StepResult \<Rightarrow> ExecutionContext \<Rightarrow> ExecutionContext" where
  "on_complete opts step result ctx =
    (let ctx1 = ctx\<lparr>completedSteps := AList.update (step_id step) result (completedSteps ctx)\<rparr>
     in if \<not> success result \<and> \<not> continueOnError opts
        then ctx1\<lparr>unhandled := unhandled ctx1 @ [''Step failed: '' @ step_name step]\<rparr>
        else ctx1)"

text \<open>
  First pass over the job queue: callbacks of the promises resolved at once,
  continuations of the suspended ones (whose callbacks are returned, to run after).
\<close>

fun run_jobs ::
  "ExecutionOptions \<Rightarrow> clock \<Rightarrow> (WorkflowStep \<times> step_promise) list \<Rightarrow> ExecutionContext
     \<Rightarrow> (WorkflowStep \<times> StepResult) list \<times> ExecutionContext" where
  "run_jobs opts clk [] ctx = ([], ctx)"
| "run_jobs opts clk ((step, Resolved r) # rest) ctx =
     run_jobs opts clk rest (on_complete opts step r ctx)"
| "run_jobs opts clk ((step, Suspended t0 outcome) # rest) ctx =
    (case executeStep_resume clk step t0 outcome ctx of
       (r, ctx1) \<Rightarrow>
         (case run_jobs opts clk rest ctx1 of
            (later, ctx2) \<Rightarrow> ((step, r) # later, ctx2)))"

definition settle_all ::
  "ExecutionOptions \<Rightarrow> clock \<Rightarrow> (WorkflowStep \<times> step_promise) list \<Rightarrow> ExecutionContext
     \<Rightarrow> ExecutionContext" where
  "settle_all opts clk executing ctx =
    (case run_jobs opts clk executing ctx of
       (later, ctx1) \<Rightarrow> foldl (\<lambda>c (step, r). on_complete opts step r c) ctx1 later)"

text \<open>The body of the while loop up to the deadlock check: (ready, pending, context).\<close>

definition parallel_round ::
  "ExecutionOptions \<Rightarrow> clock \<Rightarrow> WorkflowStep list \<Rightarrow> string list \<Rightarrow> ExecutionContext
     \<Rightarrow> string list \<times> string list \<times> ExecutionContext" where
  "parallel_round opts clk ss pending ctx =
    (let ready = filter (is_ready ss (completedSteps ctx)) pending in
     case start_ready opts clk ss ready ctx of
       (executing, ctx1) \<Rightarrow>
         (ready, filter (\<lambda>sid. sid \<notin> set ready) pending,
          if executing \<noteq> [] then settle_all opts clk executing ctx1 else ctx1))"

lemma parallel_round_pending:
  assumes "parallel_round opts clk ss pending ctx = (ready, pending', ctx')"
    and "\<not> (ready = [] \<and> pending' \<noteq> [])" and "pending \<noteq> []"
  shows "length pending' < length pending"
proof -
  from assms(1) have r: "ready = filter (is_ready ss (completedSteps ctx)) pending"
    and p: "pending' = filter (\<lambda>sid. sid \<notin> set ready) pending"
    by (auto simp: parallel_round_def Let_def split: prod.splits)
  show ?thesis
  proof (cases "ready = []")
    case True
    with assms(2,3) show ?thesis by simp
  next
    case False
    then obtain x where x: "x \<in> set ready" by (cases ready) auto
    with r have "x \<in> set pending" by auto
    with x p show ?thesis
      by (metis (mono_tags, lifting) length_filter_less)
  qed
qed

function executeParallel_loop ::
  "ExecutionOptions \<Rightarrow> clock \<Rightarrow> WorkflowStep list \<Rightarrow> string list \<Rightarrow> ExecutionContext
     \<Rightarrow> string option \<times> ExecutionContext" where
  "executeParallel_loop opts clk ss pending ctx =
    (if pending = [] then (None, ctx)
     else
       (case parallel_round opts clk ss pending ctx of
          (ready, pending', ctx') \<Rightarrow>
            if ready = [] \<and> pending' \<noteq> []
            then (Some ''Deadlock detected: steps have unmet dependencies'', ctx')
            else executeParallel_loop opts clk ss pending' ctx'))"
  by pat_completeness auto
termination
proof (relation "measure (\<lambda>(opts, clk, ss, pending, ctx). length pending)")
  show "wf (measure (\<lambda>(opts, clk, ss, pending, ctx). length pending))" by simp
next
  fix opts clk ss pending and ctx :: ExecutionContext and ready y pending' ctx'
  assume "pending \<noteq> []" "(ready, y) = parallel_round opts clk ss pending ctx"
    "(pending', ctx') = y" "\<not> (ready = [] \<and> pending' \<noteq> [])"
  then have "length pending' < length pending"
    using parallel_round_pending [of opts clk ss pending ctx ready pending' ctx'] by simp
  then show "((opts, clk, ss, pending', ctx'), (opts, clk, ss, pending, ctx))
      \<in> measure (\<lambda>(opts, clk, ss, pending, ctx). length pending)" by simp
qed

declare executeParallel_loop.simps [simp del]

definition executeParallel ::
  "ExecutionOptions \<Rightarrow> clock \<Rightarrow> WorkflowStep list \<Rightarrow> ExecutionContext
     \<Rightarrow> string option \<times> ExecutionContext" where
  "executeParallel opts clk ss ctx =
     executeParallel_loop opts clk ss (new_Set (map step_id ss)) ctx"

subsection \<open>execute\<close>

text \<open>
  \<open>run\<close> is \<open>execute\<close> together with the final context; \<open>execute\<close> is the result the
  caller gets.
\<close>

definition initial_context :: "clock \<Rightarrow> ExecutionContext" where
  "initial_context clk =
     \<lparr>currentStep = None, completedSteps = [], startTime = clk 0, ticks = 1,
      started = [], unhandled = []\<rparr>"

definition run :: "ExecutionOptions \<Rightarrow> clock \<Rightarrow> Workflow \<Rightarrow> WorkflowResult \<times> ExecutionContext" where
  "run opts clk workflow =
    (let ctx0 = initial_context clk
     in case (if parallel opts then executeParallel opts clk (steps workflow) ctx0
              else executeSequential opts clk (steps workflow) ctx0) of
          (thrown, ctx1) \<Rightarrow>
            (let errs = (case thrown of None \<Rightarrow> [] | Some e \<Rightarrow> [e]);
                 d = clk (ticks ctx1) - startTime ctx1
             in (\<lparr>wr_success = (length errs = 0 \<and> allStepsSucceeded (completedSteps ctx1)),
                  stepResults = completedSteps ctx1, wr_duration = d, errors = errs\<rparr>,
                 ctx1\<lparr>ticks := ticks ctx1 + 1\<rparr>)))"

definition execute :: "ExecutionOptions \<Rightarrow> clock \<Rightarrow> Workflow \<Rightarrow> WorkflowResult" where
  "execute opts clk workflow = fst (run opts clk workflow)"

section \<open>Example inputs\<close>

text \<open>A step with an empty configuration object.\<close>

definition mk_step :: "string \<Rightarrow> string \<Rightarrow> string \<Rightarrow> string list \<Rightarrow> WorkflowStep" where
  "mk_step sid ty nm deps =
     \<lparr>step_id = sid, step_type = ty, step_name = nm, step_config = Some [], dependencies = deps\<rparr>"

definition mk_workflow :: "WorkflowStep list \<Rightarrow> Workflow" where
  "mk_workflow ss = \<lparr>wf_id = ''workflow_1'', wf_name = ''Example'', wf_description = None, steps = ss\<rparr>"

definition mk_options :: "int \<Rightarrow> bool \<Rightarrow> bool \<Rightarrow> ExecutionOptions" where
  "mk_options t c p = \<lparr>verbose = False, timeout = t, continueOnError = c, parallel = p\<rparr>"

text \<open>A clock that advances by one millisecond at every reading.\<close>

definition tick_clock :: clock where
  "tick_clock k = int k"

section \<open>Predicates and functions used in the statements\<close>

text \<open>
  An entry of the \<open>started\<close> log is in order when the step of that id (the one
  \<open>find\<close> returns) has its dependencies met by the result map of the entry.
\<close>

definition started_ok :: "WorkflowStep list \<Rightarrow> string \<times> StepResult jsmap \<Rightarrow> bool" where
  "started_ok ss e = (case find_step ss (fst e) of
      None \<Rightarrow> False | Some step \<Rightarrow> dependenciesMet step (snd e))"

text \<open>
  The ids of the steps of a builder are \<open>step_1\<close>, \<open>step_2\<close>, ... in order; they differ
  from each other because the decimal rendering of a number can be read back.
\<close>

definition digit_value :: "char \<Rightarrow> nat" where
  "digit_value ch = of_char ch - 48"

definition decimal_value :: "string \<Rightarrow> nat" where
  "decimal_value s = foldl (\<lambda>acc ch. 10 * acc + digit_value ch) 0 s"

text \<open>
  The state of the loop of \<open>execute\<close> after the steps \<open>ss\<close>: one result per step, in
  order; a step succeeded exactly when each of its dependencies is the id of an earlier
  step that succeeded; the errors collected are those of the failed results.
\<close>

definition exec_inv :: "WorkflowStep list \<Rightarrow> exec_state \<Rightarrow> bool" where
  "exec_inv ss st \<longleftrightarrow>
     map fst (e_results st) = map step_id ss
   \<and> (\<forall>i < length ss.
        stepId (snd (e_results st ! i)) = step_id (ss ! i)
      \<and> (success (snd (e_results st ! i)) \<longleftrightarrow>
           (\<forall>dep \<in> set (dependencies (ss ! i)).
              \<exists>j < i. step_id (ss ! j) = dep \<and> success (snd (e_results st ! j)))))
   \<and> map Some (e_errors st) =
       map (\<lambda>p. error (snd p)) (filter (\<lambda>p. \<not> success (snd p)) (e_results st))"

text \<open>The part of the validator's search state that the builder's search has too.\<close>

definition cycle_view :: "dfs_state \<Rightarrow> cycle_state" where
  "cycle_view st = \<lparr>c_visited = visited st, c_recursionStack = recursionStack st\<rparr>"

section \<open>Properties of the executor\<close>

subsection \<open>The result map has one entry per key\<close>

lemma executeStep_begin_completed:
  "executeStep_begin opts clk step ctx = (p, ctx') \<Longrightarrow> completedSteps ctx' = completedSteps ctx"
  by (auto simp: executeStep_begin_def Let_def split: if_splits)

lemma executeStep_resume_completed:
  "executeStep_resume clk step t0 outcome ctx = (r, ctx') \<Longrightarrow>
     completedSteps ctx' = completedSteps ctx"
  by (auto simp: executeStep_resume_def Let_def split: sum.splits)

lemma executeStep_completed:
  "executeStep opts clk step ctx = (r, ctx') \<Longrightarrow> completedSteps ctx' = completedSteps ctx"
proof (cases "executeStep_begin opts clk step ctx")
  case (Pair p c1)
  then have c1: "completedSteps c1 = completedSteps ctx"
    by (rule executeStep_begin_completed)
  assume "executeStep opts clk step ctx = (r, ctx')"
  with Pair c1 show ?thesis
    by (cases p) (auto simp: executeStep_def dest: executeStep_resume_completed)
qed

lemma executeSequential_distinct:
  "executeSequential opts clk ss ctx = (e, ctx') \<Longrightarrow> distinct (map fst (completedSteps ctx)) \<Longrightarrow>
     distinct (map fst (completedSteps ctx'))"
proof (induction ss arbitrary: ctx)
  case Nil
  then show ?case by simp
next
  case (Cons step rest)
  show ?case
  proof (cases "dependenciesMet step (completedSteps ctx)")
    case False
    with Cons.prems show ?thesis by auto
  next
    case True
    obtain r c2 where ex: "executeStep opts clk step (ctx\<lparr>currentStep := Some step\<rparr>) = (r, c2)"
      by (cases "executeStep opts clk step (ctx\<lparr>currentStep := Some step\<rparr>)")
    then have c2: "completedSteps c2 = completedSteps ctx"
      by (auto dest: executeStep_completed)
    let ?c3 = "c2\<lparr>completedSteps := AList.update (step_id step) r (completedSteps c2)\<rparr>"
    have d3: "distinct (map fst (completedSteps ?c3))"
      using Cons.prems(2) c2 by (simp add: distinct_update)
    show ?thesis
    proof (cases "\<not> success r \<and> \<not> continueOnError opts")
      case True
      with Cons.prems(1) \<open>dependenciesMet step (completedSteps ctx)\<close> ex d3 show ?thesis
        by (auto simp: Let_def)
    next
      case False
      with Cons.prems(1) \<open>dependenciesMet step (completedSteps ctx)\<close> ex
      have "executeSequential opts clk rest ?c3 = (e, ctx')"
        by (auto simp: Let_def)
      then show ?thesis using d3 by (rule Cons.IH)
    qed
  qed
qed

lemma start_ready_completed:
  "start_ready opts clk ss ready ctx = (ps, ctx') \<Longrightarrow> completedSteps ctx' = completedSteps ctx"
proof (induction ready arbitrary: ctx ps)
  case Nil
  then show ?case by simp
next
  case (Cons sid rest)
  then show ?case
    by (fastforce split: option.splits prod.splits dest: executeStep_begin_completed)
qed

lemma on_complete_distinct:
  "distinct (map fst (completedSteps ctx)) \<Longrightarrow>
     distinct (map fst (completedSteps (on_complete opts step r ctx)))"
  by (simp add: on_complete_def Let_def distinct_update)

lemma run_jobs_distinct:
  "run_jobs opts clk ps ctx = (later, ctx') \<Longrightarrow> distinct (map fst (completedSteps ctx)) \<Longrightarrow>
     distinct (map fst (completedSteps ctx'))"
proof (induction opts clk ps ctx arbitrary: later rule: run_jobs.induct)
  case (1 opts clk ctx)
  then show ?case by simp
next
  case (2 opts clk step r rest ctx)
  then show ?case by (simp add: on_complete_distinct)
next
  case (3 opts clk step t0 outcome rest ctx)
  then show ?case
    by (fastforce split: prod.splits dest: executeStep_resume_completed)
qed

lemma foldl_on_complete_distinct:
  "distinct (map fst (completedSteps ctx)) \<Longrightarrow>
     distinct (map fst (completedSteps (foldl (\<lambda>c (step, r). on_complete opts step r c) ctx later)))"
  by (induction later arbitrary: ctx) (auto simp: on_complete_distinct)

lemma settle_all_distinct:
  "distinct (map fst (completedSteps ctx)) \<Longrightarrow>
     distinct (map fst (completedSteps (settle_all opts clk ps ctx)))"
  by (auto simp: settle_all_def split: prod.splits
           intro: foldl_on_complete_distinct dest: run_jobs_distinct)

lemma parallel_round_distinct:
  "parallel_round opts clk ss pending ctx = (ready, pending', ctx') \<Longrightarrow>
     distinct (map fst (completedSteps ctx)) \<Longrightarrow> distinct (map fst (completedSteps ctx'))"
  by (auto simp: parallel_round_def Let_def split: prod.splits if_splits
           dest: start_ready_completed intro!: settle_all_distinct)

lemma executeParallel_loop_distinct:
  "executeParallel_loop opts clk ss pending ctx = (e, ctx') \<Longrightarrow>
     distinct (map fst (completedSteps ctx)) \<Longrightarrow> distinct (map fst (completedSteps ctx'))"
proof (induction opts clk ss pending ctx rule: executeParallel_loop.induct)
  case (1 opts clk ss pending ctx)
  show ?case
  proof (cases "pending = []")
    case True
    with "1.prems" show ?thesis by (simp add: executeParallel_loop.simps)
  next
    case False
    obtain ready pending' c1 where pr: "parallel_round opts clk ss pending ctx = (ready, pending', c1)"
      by (cases "parallel_round opts clk ss pending ctx") auto
    then have d1: "distinct (map fst (completedSteps c1))"
      using "1.prems"(2) by (rule parallel_round_distinct)
    show ?thesis
    proof (cases "ready = [] \<and> pending' \<noteq> []")
      case True
      with False pr "1.prems"(1) d1 show ?thesis
        by (simp add: executeParallel_loop.simps)
    next
      case nd: False
      with False pr "1.prems"(1)
      have "executeParallel_loop opts clk ss pending' c1 = (e, ctx')"
        by (simp add: executeParallel_loop.simps)
      with "1.IH" [OF False pr [symmetric] refl nd] d1 show ?thesis by simp
    qed
  qed
qed

lemma run_distinct: "distinct (map fst (stepResults (fst (run opts clk w))))"
  by (auto simp: run_def initial_context_def Let_def executeParallel_def split: prod.splits
           dest: executeSequential_distinct executeParallel_loop_distinct)

lemma allStepsSucceeded_iff:
  assumes "distinct (map fst results)"
  shows "allStepsSucceeded results \<longleftrightarrow> (\<forall>k r. map_of results k = Some r \<longrightarrow> success r)"
proof -
  have "allStepsSucceeded results \<longleftrightarrow> (\<forall>k r. (k, r) \<in> set results \<longrightarrow> success r)"
    by (auto simp: allStepsSucceeded_def list_all_iff)
  with assms show ?thesis by simp
qed

subsection \<open>Overall success\<close>

text \<open>
  Claim C1. For every options record, clock and workflow, the success flag of the result
  of \<open>execute\<close> is true if and only if the error list of the result is empty and every
  StepResult stored in its step-result map has success = true.
\<close>

theorem execute_success_iff:
  "wr_success (execute opts clk w) \<longleftrightarrow>
     errors (execute opts clk w) = [] \<and>
     (\<forall>k r. map_of (stepResults (execute opts clk w)) k = Some r \<longrightarrow> success r)"
proof -
  have "wr_success (execute opts clk w) \<longleftrightarrow>
     errors (execute opts clk w) = [] \<and> allStepsSucceeded (stepResults (execute opts clk w))"
    by (auto simp: execute_def run_def Let_def split: prod.splits)
  moreover have "distinct (map fst (stepResults (execute opts clk w)))"
    unfolding execute_def by (rule run_distinct)
  ultimately show ?thesis by (simp add: allStepsSucceeded_iff)
qed

text \<open>
  The theorem at a run of two steps where the timeout (3 ms, the clock advancing 1 ms per
  reading) is exceeded at the check of the second step: the error list is not empty, so
  the run is not a success.
\<close>

theorem execute_success_iff_witness:
  "errors (execute (mk_options 3 False False) tick_clock
      (mk_workflow [mk_step ''a'' ''test'' ''A'' [], mk_step ''b'' ''deploy'' ''B'' [''a'']]))
     = [''Step failed: B'']
   \<and> \<not> wr_success (execute (mk_options 3 False False) tick_clock
      (mk_workflow [mk_step ''a'' ''test'' ''A'' [], mk_step ''b'' ''deploy'' ''B'' [''a'']]))"
proof -
  let ?r = "execute (mk_options 3 False False) tick_clock
      (mk_workflow [mk_step ''a'' ''test'' ''A'' [], mk_step ''b'' ''deploy'' ''B'' [''a'']])"
  have e: "errors ?r = [''Step failed: B'']"
    by code_simp
  moreover have "\<not> wr_success ?r"
    using execute_success_iff [of "mk_options 3 False False" tick_clock
      "mk_workflow [mk_step ''a'' ''test'' ''A'' [], mk_step ''b'' ''deploy'' ''B'' [''a'']]"] e
    by simp
  ultimately show ?thesis by simp
qed

subsection \<open>Sequential mode stops at a failed step\<close>

text \<open>What \<open>executeStep\<close> returns, whatever the step.\<close>

lemma executeStep_snd:
  "snd (executeStep opts clk s ctx) =
     ctx\<lparr>started := started ctx @ [(step_id s, completedSteps ctx)], ticks := ticks ctx + 3\<rparr>"
  by (simp add: executeStep_def executeStep_begin_def executeStep_resume_def Let_def
           split: sum.splits)

lemma executeStep_success:
  "success (fst (executeStep opts clk s ctx)) \<longleftrightarrow>
     clk (ticks ctx + 1) - startTime ctx \<le> timeout opts \<and> step_type s \<in> set validTypes"
  by (simp add: executeStep_def executeStep_begin_def executeStep_resume_def Let_def
        executeStepByType_def validTypes_def split: sum.splits)

lemma executeStep_stepId: "stepId (fst (executeStep opts clk s ctx)) = step_id s"
  by (simp add: executeStep_def executeStep_begin_def executeStep_resume_def Let_def
        split: sum.splits)

lemma executeStep_error:
  "error (fst (executeStep opts clk s ctx)) =
     (if clk (ticks ctx + 1) - startTime ctx > timeout opts then Some ''Workflow execution timeout''
      else if step_type s \<in> set validTypes then None
      else Some (''Unknown step type: '' @ step_type s))"
  by (simp add: executeStep_def executeStep_begin_def executeStep_resume_def Let_def
        executeStepByType_def validTypes_def split: sum.splits)

text \<open>
  Claim C2. Sequential mode, continue-on-error = false, three steps A, B, C with distinct
  ids where B depends on A and C on B. A's execution succeeds (its type is known and the
  timeout is not exceeded at its check, the clock reading number 2) and B's execution
  fails (its type is unknown, or the timeout is exceeded at its check, reading number 5).
  Then C is never attempted: the result is overall-failed, the result map holds A's and
  B's results only, B's is its one failed StepResult, C has no entry, and \<open>executeStep\<close>
  was entered for A and B only.
\<close>

theorem sequential_fail_fast:
  assumes "\<not> parallel opts" and "\<not> continueOnError opts"
    and "steps w = [A, B, C]"
    and "step_id A = a" and "step_id B = b" and "step_id C = c"
    and "a \<noteq> b" and "a \<noteq> c" and "b \<noteq> c"
    and "dependencies A = []" and "dependencies B = [a]" and "dependencies C = [b]"
    and "step_type A \<in> set validTypes" and "clk 2 - clk 0 \<le> timeout opts"
    and "step_type B \<notin> set validTypes \<or> clk 5 - clk 0 > timeout opts"
  shows "\<not> wr_success (execute opts clk w)
     \<and> errors (execute opts clk w) = [''Step failed: '' @ step_name B]
     \<and> map fst (stepResults (execute opts clk w)) = [a, b]
     \<and> map fst (filter (\<lambda>(k, r). \<not> success r) (stepResults (execute opts clk w))) = [b]
     \<and> map_of (stepResults (execute opts clk w)) c = None
     \<and> map fst (started (snd (run opts clk w))) = [a, b]"
proof -
  let ?c0 = "\<lparr>currentStep = None, completedSteps = [], startTime = clk 0, ticks = 1,
                 started = [], unhandled = []\<rparr>"
  have c0: "initial_context clk = ?c0" by (simp add: initial_context_def)
  let ?rA = "fst (executeStep opts clk A (?c0\<lparr>currentStep := Some A\<rparr>))"
  let ?c1 = "?c0\<lparr>currentStep := Some A, started := [(a, [])], ticks := 4,
                  completedSteps := [(a, ?rA)]\<rparr>"
  let ?rB = "fst (executeStep opts clk B (?c1\<lparr>currentStep := Some B\<rparr>))"
  let ?c2 = "?c1\<lparr>currentStep := Some B, started := [(a, []), (b, [(a, ?rA)])], ticks := 7,
                  completedSteps := [(a, ?rA), (b, ?rB)]\<rparr>"
  have two: "Suc (Suc 0) = 2" by simp
  have okA: "success ?rA"
    using assms(13,14) by (simp add: executeStep_success two)
  have failB: "\<not> success ?rB"
    using assms(15) by (auto simp: executeStep_success)
  have seq: "executeSequential opts clk [A, B, C] ?c0 = (Some (''Step failed: '' @ step_name B), ?c2)"
    using assms(2,4-12) okA failB
    by (simp add: dependenciesMet_def case_prod_beta executeStep_snd Let_def)
  then have r: "run opts clk w =
      (\<lparr>wr_success = False, stepResults = [(a, ?rA), (b, ?rB)], wr_duration = clk 7 - clk 0,
        errors = [''Step failed: '' @ step_name B]\<rparr>, ?c2\<lparr>ticks := 8\<rparr>)"
    using assms(1,3) by (simp add: run_def c0)
  show ?thesis
    using okA failB assms(7-9) by (simp add: execute_def r)
qed

text \<open>
  The chain with known types, where B fails because the timeout (3 ms, the clock advancing
  1 ms per reading) is exceeded at its check.
\<close>

theorem sequential_fail_fast_witness:
  "\<not> wr_success (execute (mk_options 3 False False) tick_clock
        (mk_workflow [mk_step ''a'' ''analysis'' ''A'' [], mk_step ''b'' ''fix'' ''B'' [''a''],
                      mk_step ''c'' ''test'' ''C'' [''b'']]))
   \<and> map fst (stepResults (execute (mk_options 3 False False) tick_clock
        (mk_workflow [mk_step ''a'' ''analysis'' ''A'' [], mk_step ''b'' ''fix'' ''B'' [''a''],
                      mk_step ''c'' ''test'' ''C'' [''b'']]))) = [''a'', ''b'']
   \<and> map_of (stepResults (execute (mk_options 3 False False) tick_clock
        (mk_workflow [mk_step ''a'' ''analysis'' ''A'' [], mk_step ''b'' ''fix'' ''B'' [''a''],
                      mk_step ''c'' ''test'' ''C'' [''b'']]))) ''c'' = None"
  using sequential_fail_fast [where opts = "mk_options 3 False False" and clk = tick_clock
      and w = "mk_workflow [mk_step ''a'' ''analysis'' ''A'' [], mk_step ''b'' ''fix'' ''B'' [''a''],
                      mk_step ''c'' ''test'' ''C'' [''b'']]"
      and A = "mk_step ''a'' ''analysis'' ''A'' []" and B = "mk_step ''b'' ''fix'' ''B'' [''a'']"
      and C = "mk_step ''c'' ''test'' ''C'' [''b'']" and a = "''a''" and b = "''b''" and c = "''c''"]
  by (simp add: mk_options_def mk_workflow_def mk_step_def tick_clock_def validTypes_def)

subsection \<open>Sequential mode: an unmet dependency\<close>

lemma executeSequential_append:
  "executeSequential opts clk (pre @ rest) ctx =
     (case executeSequential opts clk pre ctx of
        (None, c) \<Rightarrow> executeSequential opts clk rest c
      | (Some e, c) \<Rightarrow> (Some e, c))"
  by (induction pre arbitrary: ctx) (auto simp: Let_def split: prod.splits option.splits)

lemma executeSequential_startTime:
  "executeSequential opts clk ss ctx = (e, ctx') \<Longrightarrow> startTime ctx' = startTime ctx"
proof (induction ss arbitrary: ctx)
  case Nil
  then show ?case by simp
next
  case (Cons step rest)
  have s: "startTime (snd (executeStep opts clk step (ctx\<lparr>currentStep := Some step\<rparr>))) = startTime ctx"
    by (simp add: executeStep_snd)
  from Cons.prems show ?case
    by (auto simp: Let_def case_prod_beta executeStep_snd split: if_splits dest!: Cons.IH)
qed

lemma executeSequential_keys:
  "executeSequential opts clk ss ctx = (e, ctx') \<Longrightarrow>
     fst ` set (completedSteps ctx') \<subseteq> fst ` set (completedSteps ctx) \<union> step_id ` set ss"
proof (induction ss arbitrary: ctx)
  case Nil
  then show ?case by simp
next
  case (Cons step rest)
  show ?case
  proof (cases "dependenciesMet step (completedSteps ctx)")
    case False
    with Cons.prems show ?thesis by auto
  next
    case True
    let ?r = "fst (executeStep opts clk step (ctx\<lparr>currentStep := Some step\<rparr>))"
    let ?c3 = "(snd (executeStep opts clk step (ctx\<lparr>currentStep := Some step\<rparr>)))
                 \<lparr>completedSteps := AList.update (step_id step) ?r (completedSteps ctx)\<rparr>"
    have k3: "fst ` set (completedSteps ?c3) = insert (step_id step) (fst ` set (completedSteps ctx))"
      by (simp add: dom_update [unfolded dom_map_of_conv_image_fst, symmetric] dom_map_of_conv_image_fst [symmetric] update_conv')
    show ?thesis
    proof (cases "\<not> success ?r \<and> \<not> continueOnError opts")
      case True
      with Cons.prems \<open>dependenciesMet step (completedSteps ctx)\<close> have "ctx' = ?c3"
        by (auto simp: Let_def case_prod_beta executeStep_snd)
      with k3 show ?thesis by auto
    next
      case False
      with Cons.prems \<open>dependenciesMet step (completedSteps ctx)\<close>
      have "executeSequential opts clk rest ?c3 = (e, ctx')"
        by (auto simp: Let_def case_prod_beta executeStep_snd)
      from Cons.IH [OF this] k3 show ?thesis by auto
    qed
  qed
qed

lemma initial_context_simps:
  "completedSteps (initial_context clk) = []" "startTime (initial_context clk) = clk 0"
  "started (initial_context clk) = []"
  by (simp_all add: initial_context_def)

lemma map_of_absent: "k \<notin> fst ` set xs \<Longrightarrow> map_of xs k = None"
  by (simp add: map_of_eq_None_iff)

text \<open>
  Claim C5, as stated, fails: under continue-on-error = true, with B failed in the chain
  A, B, C (the timeout of 3 ms is exceeded at B's check, the clock advancing 1 ms per
  reading) and a fourth step D that depends on nothing, the engine stores no StepResult
  for C and does not go on to D; the only trace of C is the run-level error.
\<close>

theorem dependency_not_met_counterexample:
  "map_of (stepResults (execute (mk_options 3 True False) tick_clock
      (mk_workflow [mk_step ''a'' ''analysis'' ''A'' [], mk_step ''b'' ''fix'' ''B'' [''a''],
                    mk_step ''c'' ''test'' ''C'' [''b''], mk_step ''d'' ''deploy'' ''D'' []]))) ''c''
     = None
   \<and> map_of (stepResults (execute (mk_options 3 True False) tick_clock
      (mk_workflow [mk_step ''a'' ''analysis'' ''A'' [], mk_step ''b'' ''fix'' ''B'' [''a''],
                    mk_step ''c'' ''test'' ''C'' [''b''], mk_step ''d'' ''deploy'' ''D'' []]))) ''d''
     = None
   \<and> errors (execute (mk_options 3 True False) tick_clock
      (mk_workflow [mk_step ''a'' ''analysis'' ''A'' [], mk_step ''b'' ''fix'' ''B'' [''a''],
                    mk_step ''c'' ''test'' ''C'' [''b''], mk_step ''d'' ''deploy'' ''D'' []]))
     = [''Dependencies not met for step: C'']"
  by code_simp

text \<open>
  Claim C5, amended. In sequential mode a dependency-not-met condition is a run-level
  failure, whatever continue-on-error says: when the loop has run the steps \<open>pre\<close>
  without throwing and reaches a step one of whose dependencies has no result or a failed
  one, the run stops there. The error list is the one error "Dependencies not met for
  step: name", overall success is false, the result map is the one built by \<open>pre\<close>,
  \<open>executeStep\<close> is entered for no further step, and neither this step nor a later one has
  an entry (unless a step of \<open>pre\<close> has the same id).
\<close>

theorem sequential_dependency_not_met:
  assumes "\<not> parallel opts"
    and "steps w = pre @ step # post"
    and "executeSequential opts clk pre (initial_context clk) = (None, ctx)"
    and "\<not> dependenciesMet step (completedSteps ctx)"
  shows "errors (execute opts clk w) = [''Dependencies not met for step: '' @ step_name step]
     \<and> \<not> wr_success (execute opts clk w)
     \<and> stepResults (execute opts clk w) = completedSteps ctx
     \<and> started (snd (run opts clk w)) = started ctx
     \<and> (\<forall>s \<in> set (step # post). step_id s \<notin> step_id ` set pre \<longrightarrow>
           map_of (stepResults (execute opts clk w)) (step_id s) = None)"
proof -
  have "executeSequential opts clk (steps w) (initial_context clk) =
      (Some (''Dependencies not met for step: '' @ step_name step), ctx\<lparr>currentStep := Some step\<rparr>)"
    using assms(2-4) by (simp add: executeSequential_append)
  then have r: "run opts clk w =
     (\<lparr>wr_success = False, stepResults = completedSteps ctx,
       wr_duration = clk (ticks ctx) - startTime ctx,
       errors = [''Dependencies not met for step: '' @ step_name step]\<rparr>,
      ctx\<lparr>currentStep := Some step, ticks := ticks ctx + 1\<rparr>)"
    using assms(1) by (simp add: run_def)
  have "fst ` set (completedSteps ctx) \<subseteq> step_id ` set pre"
    using executeSequential_keys [OF assms(3)] by (simp add: initial_context_simps)
  then have "\<forall>s \<in> set (step # post). step_id s \<notin> step_id ` set pre \<longrightarrow>
           map_of (completedSteps ctx) (step_id s) = None"
    by (auto intro!: map_of_absent)
  then show ?thesis by (simp add: execute_def r)
qed

text \<open>
  The chain A, B, C with B failed by the timeout under continue-on-error = true: C is
  reached with B's failed result in the map.
\<close>

theorem sequential_dependency_not_met_witness:
  "errors (execute (mk_options 3 True False) tick_clock
      (mk_workflow [mk_step ''a'' ''analysis'' ''A'' [], mk_step ''b'' ''fix'' ''B'' [''a''],
                    mk_step ''c'' ''test'' ''C'' [''b'']]))
     = [''Dependencies not met for step: C'']
   \<and> \<not> wr_success (execute (mk_options 3 True False) tick_clock
      (mk_workflow [mk_step ''a'' ''analysis'' ''A'' [], mk_step ''b'' ''fix'' ''B'' [''a''],
                    mk_step ''c'' ''test'' ''C'' [''b'']]))
   \<and> map_of (stepResults (execute (mk_options 3 True False) tick_clock
      (mk_workflow [mk_step ''a'' ''analysis'' ''A'' [], mk_step ''b'' ''fix'' ''B'' [''a''],
                    mk_step ''c'' ''test'' ''C'' [''b'']]))) ''c'' = None"
proof -
  let ?opts = "mk_options 3 True False"
  let ?pre = "[mk_step ''a'' ''analysis'' ''A'' [], mk_step ''b'' ''fix'' ''B'' [''a'']]"
  let ?C = "mk_step ''c'' ''test'' ''C'' [''b'']"
  let ?w = "mk_workflow (?pre @ ?C # [])"
  let ?ctx = "snd (executeSequential ?opts tick_clock ?pre (initial_context tick_clock))"
  have h1: "\<not> parallel ?opts" by (simp add: mk_options_def)
  have h2: "steps ?w = ?pre @ ?C # []" by (simp add: mk_workflow_def)
  have "fst (executeSequential ?opts tick_clock ?pre (initial_context tick_clock)) = None"
    by code_simp
  then have h3: "executeSequential ?opts tick_clock ?pre (initial_context tick_clock) = (None, ?ctx)"
    by (simp add: prod_eq_iff)
  have h4: "\<not> dependenciesMet ?C (completedSteps ?ctx)" by code_simp
  have h5: "step_id ?C \<notin> step_id ` set ?pre" by (simp add: mk_step_def)
  note T = sequential_dependency_not_met [OF h1 h2 h3 h4]
  have e: "errors (execute ?opts tick_clock ?w) =
      [''Dependencies not met for step: '' @ step_name ?C]"
    using T by blast
  have s: "\<not> wr_success (execute ?opts tick_clock ?w)"
    using T by blast
  have "?C \<in> set (?C # [])" by simp
  with T h5 have m: "map_of (stepResults (execute ?opts tick_clock ?w)) (step_id ?C) = None"
    by blast
  have n: "step_name ?C = ''C''" "step_id ?C = ''c''" by (simp_all add: mk_step_def)
  show ?thesis using e s m unfolding n by simp
qed

subsection \<open>Sequential mode: the timeout\<close>

lemma executeSequential_thrown:
  "executeSequential opts clk ss ctx = (Some e, ctx') \<Longrightarrow>
     (\<exists>n. e = ''Dependencies not met for step: '' @ n) \<or> (\<exists>n. e = ''Step failed: '' @ n)"
  by (induction ss arbitrary: ctx)
     (auto simp: Let_def case_prod_beta split: if_splits)

lemma executeParallel_loop_thrown:
  "executeParallel_loop opts clk ss pending ctx = (Some e, ctx') \<Longrightarrow>
     e = ''Deadlock detected: steps have unmet dependencies''"
proof (induction opts clk ss pending ctx rule: executeParallel_loop.induct)
  case (1 opts clk ss pending ctx)
  show ?case
  proof (cases "pending = []")
    case True
    with "1.prems" show ?thesis by (simp add: executeParallel_loop.simps)
  next
    case False
    obtain ready pending' c1 where pr: "parallel_round opts clk ss pending ctx = (ready, pending', c1)"
      by (cases "parallel_round opts clk ss pending ctx") auto
    show ?thesis
    proof (cases "ready = [] \<and> pending' \<noteq> []")
      case True
      with False pr "1.prems" show ?thesis
        by (simp add: executeParallel_loop.simps)
    next
      case nd: False
      with False pr "1.prems"
      have "executeParallel_loop opts clk ss pending' c1 = (Some e, ctx')"
        by (simp add: executeParallel_loop.simps)
      with "1.IH" [OF False pr [symmetric] refl nd] show ?thesis by simp
    qed
  qed
qed

lemma errors_never_timeout:
  "''Workflow execution timeout'' \<notin> set (errors (execute opts clk w))"
proof (cases "parallel opts")
  case True
  then show ?thesis
    by (auto simp: execute_def run_def executeParallel_def Let_def
             split: prod.splits option.splits dest!: executeParallel_loop_thrown)
next
  case False
  then show ?thesis
    by (auto simp: execute_def run_def Let_def
             split: prod.splits option.splits dest!: executeSequential_thrown)
qed

text \<open>
  Claim C6, as stated, fails: with a timeout of 3 ms and a clock that advances by 1 ms
  per reading, the timeout is exceeded at the check of the second step B. B is in the
  result map, as a failed StepResult that carries the timeout error, and the error list
  holds "Step failed: B", not a timeout error.
\<close>

theorem timeout_counterexample:
  "map_of (stepResults (execute (mk_options 3 False False) tick_clock
      (mk_workflow [mk_step ''a'' ''analysis'' ''A'' [], mk_step ''b'' ''test'' ''B'' [''a'']]))) ''b''
     = Some \<lparr>stepId = ''b'', success = False, sr_output = Null, duration = 2,
             error = Some ''Workflow execution timeout''\<rparr>
   \<and> errors (execute (mk_options 3 False False) tick_clock
      (mk_workflow [mk_step ''a'' ''analysis'' ''A'' [], mk_step ''b'' ''test'' ''B'' [''a'']]))
     = [''Step failed: B'']"
  by code_simp

text \<open>
  Claim C6, amended. The timeout is checked inside \<open>executeStep\<close>, whose own
  \<open>catch\<close> turns it into a failed StepResult, so no execution has a timeout error in its
  error list. In sequential mode with continue-on-error = false, when the loop has run the
  steps \<open>pre\<close> without throwing and the timeout is exceeded at the check of the next step
  (whose dependencies are met), that step is entered and recorded in the result map as a
  failed StepResult whose error is "Workflow execution timeout"; the run ends there,
  overall-failed, with the single error "Step failed: name". The second part of the
  statement is the step-level fact, for any context \<open>c\<close> and step \<open>s\<close>: when the timeout
  is exceeded at the check, \<open>executeStep\<close> returns that failed StepResult.
\<close>

theorem sequential_timeout_recorded:
  "''Workflow execution timeout'' \<notin> set (errors (execute opts clk w)) \<and>
   (clk (ticks c + 1) - startTime c > timeout opts \<longrightarrow>
      executeStep opts clk s c =
        (\<lparr>stepId = step_id s, success = False, sr_output = Null,
          duration = clk (ticks c + 2) - clk (ticks c),
          error = Some ''Workflow execution timeout''\<rparr>,
         c\<lparr>started := started c @ [(step_id s, completedSteps c)], ticks := ticks c + 3\<rparr>)) \<and>
   (\<not> parallel opts \<and> \<not> continueOnError opts \<and> steps w = pre @ step # post \<and>
    executeSequential opts clk pre (initial_context clk) = (None, ctx) \<and>
    dependenciesMet step (completedSteps ctx) \<and>
    clk (ticks ctx + 1) - clk 0 > timeout opts \<longrightarrow>
      errors (execute opts clk w) = [''Step failed: '' @ step_name step]
    \<and> \<not> wr_success (execute opts clk w)
    \<and> map_of (stepResults (execute opts clk w)) (step_id step) =
        Some \<lparr>stepId = step_id step, success = False, sr_output = Null,
              duration = clk (ticks ctx + 2) - clk (ticks ctx),
              error = Some ''Workflow execution timeout''\<rparr>
    \<and> started (snd (run opts clk w)) = started ctx @ [(step_id step, completedSteps ctx)])"
proof (intro conjI impI)
  show "''Workflow execution timeout'' \<notin> set (errors (execute opts clk w))"
    by (rule errors_never_timeout)
next
  assume "clk (ticks c + 1) - startTime c > timeout opts"
  then show "executeStep opts clk s c =
        (\<lparr>stepId = step_id s, success = False, sr_output = Null,
          duration = clk (ticks c + 2) - clk (ticks c),
          error = Some ''Workflow execution timeout''\<rparr>,
         c\<lparr>started := started c @ [(step_id s, completedSteps c)], ticks := ticks c + 3\<rparr>)"
    by (simp add: executeStep_def executeStep_begin_def Let_def)
next
  assume a: "\<not> parallel opts \<and> \<not> continueOnError opts \<and> steps w = pre @ step # post \<and>
    executeSequential opts clk pre (initial_context clk) = (None, ctx) \<and>
    dependenciesMet step (completedSteps ctx) \<and>
    clk (ticks ctx + 1) - clk 0 > timeout opts"
  let ?r = "\<lparr>stepId = step_id step, success = False, sr_output = Null,
              duration = clk (ticks ctx + 2) - clk (ticks ctx),
              error = Some ''Workflow execution timeout''\<rparr>"
  let ?c = "ctx\<lparr>currentStep := Some step,
               started := started ctx @ [(step_id step, completedSteps ctx)],
               ticks := ticks ctx + 3,
               completedSteps := AList.update (step_id step) ?r (completedSteps ctx)\<rparr>"
  from a have st: "startTime ctx = clk 0"
    by (auto dest: executeSequential_startTime simp: initial_context_simps)
  with a have ex: "executeStep opts clk step (ctx\<lparr>currentStep := Some step\<rparr>) =
      (?r, ctx\<lparr>currentStep := Some step,
               started := started ctx @ [(step_id step, completedSteps ctx)],
               ticks := ticks ctx + 3\<rparr>)"
    by (simp add: executeStep_def executeStep_begin_def Let_def)
  have "executeSequential opts clk (steps w) (initial_context clk) =
      (Some (''Step failed: '' @ step_name step), ?c)"
    using a by (simp add: executeSequential_append ex)
  then have r: "run opts clk w =
     (\<lparr>wr_success = False, stepResults = AList.update (step_id step) ?r (completedSteps ctx),
       wr_duration = clk (ticks ctx + 3) - startTime ctx,
       errors = [''Step failed: '' @ step_name step]\<rparr>,
      ?c\<lparr>ticks := ticks ctx + 4\<rparr>)"
    using a by (simp add: run_def)
  show "errors (execute opts clk w) = [''Step failed: '' @ step_name step]"
    "\<not> wr_success (execute opts clk w)"
    "map_of (stepResults (execute opts clk w)) (step_id step) = Some ?r"
    "started (snd (run opts clk w)) = started ctx @ [(step_id step, completedSteps ctx)]"
    by (simp_all add: execute_def r update_conv')
qed

theorem sequential_timeout_recorded_witness:
  "''Workflow execution timeout'' \<notin> set (errors (execute (mk_options 3 False False) tick_clock
      (mk_workflow [mk_step ''a'' ''analysis'' ''A'' [], mk_step ''b'' ''test'' ''B'' [''a'']])))
   \<and> errors (execute (mk_options 3 False False) tick_clock
      (mk_workflow [mk_step ''a'' ''analysis'' ''A'' [], mk_step ''b'' ''test'' ''B'' [''a'']]))
     = [''Step failed: B'']
   \<and> map_of (stepResults (execute (mk_options 3 False False) tick_clock
      (mk_workflow [mk_step ''a'' ''analysis'' ''A'' [], mk_step ''b'' ''test'' ''B'' [''a'']]))) ''b''
     = Some \<lparr>stepId = ''b'', success = False, sr_output = Null, duration = 2,
             error = Some ''Workflow execution timeout''\<rparr>"
proof -
  let ?opts = "mk_options 3 False False"
  let ?pre = "[mk_step ''a'' ''analysis'' ''A'' []]"
  let ?B = "mk_step ''b'' ''test'' ''B'' [''a'']"
  let ?w = "mk_workflow (?pre @ ?B # [])"
  let ?ctx = "snd (executeSequential ?opts tick_clock ?pre (initial_context tick_clock))"
  have h1: "\<not> parallel ?opts" "\<not> continueOnError ?opts" by (simp_all add: mk_options_def)
  have h2: "steps ?w = ?pre @ ?B # []" by (simp add: mk_workflow_def)
  have "fst (executeSequential ?opts tick_clock ?pre (initial_context tick_clock)) = None"
    by code_simp
  then have h3: "executeSequential ?opts tick_clock ?pre (initial_context tick_clock) = (None, ?ctx)"
    by (simp add: prod_eq_iff)
  have h4: "dependenciesMet ?B (completedSteps ?ctx)" by code_simp
  have h5: "tick_clock (ticks ?ctx + 1) - tick_clock 0 > timeout ?opts" by code_simp
  have t: "ticks ?ctx = 4" by code_simp
  note T = sequential_timeout_recorded [where opts = ?opts and clk = tick_clock and w = ?w
      and pre = ?pre and step = ?B and post = "[]" and ctx = ?ctx]
  have n: "''Workflow execution timeout'' \<notin> set (errors (execute ?opts tick_clock ?w))"
    using T by blast
  have e: "errors (execute ?opts tick_clock ?w) = [''Step failed: '' @ step_name ?B]"
    using T h1 h2 h3 h4 h5 by blast
  have r: "map_of (stepResults (execute ?opts tick_clock ?w)) (step_id ?B) =
        Some \<lparr>stepId = step_id ?B, success = False, sr_output = Null,
              duration = tick_clock (ticks ?ctx + 2) - tick_clock (ticks ?ctx),
              error = Some ''Workflow execution timeout''\<rparr>"
    using T h1 h2 h3 h4 h5 by blast
  have b: "step_name ?B = ''B''" "step_id ?B = ''b''" by (simp_all add: mk_step_def)
  have d: "tick_clock (ticks ?ctx + 2) - tick_clock (ticks ?ctx) = 2"
    unfolding t by (simp add: tick_clock_def)
  show ?thesis using n e r unfolding b d by simp
qed

subsection \<open>Parallel mode: a step starts after its dependencies\<close>

lemma dependenciesMet_iff:
  "dependenciesMet step completed \<longleftrightarrow>
     (\<forall>d \<in> set (dependencies step). \<exists>r. map_of completed d = Some r \<and> success r)"
  by (auto simp: dependenciesMet_def list_all_iff split: option.splits)

lemma find_step_id: "find_step ss sid = Some step \<Longrightarrow> step_id step = sid"
  by (auto simp: find_step_def find_Some_iff)

lemma find_step_pending:
  "sid \<in> set (new_Set (map step_id ss)) \<Longrightarrow> find_step ss sid \<noteq> None"
proof -
  have "set (new_Set xs) \<subseteq> set xs" for xs
    by (induction xs) auto
  then have "set (new_Set (map step_id ss)) \<subseteq> step_id ` set ss"
    by (metis set_map)
  moreover assume "sid \<in> set (new_Set (map step_id ss))"
  ultimately obtain s where "s \<in> set ss" "step_id s = sid" by auto
  then show "find_step ss sid \<noteq> None"
    by (auto simp: find_step_def find_None_iff)
qed

lemma executeStep_begin_started:
  "executeStep_begin opts clk step ctx = (p, ctx') \<Longrightarrow>
     started ctx' = started ctx @ [(step_id step, completedSteps ctx)]"
  by (auto simp: executeStep_begin_def Let_def split: if_splits)

lemma start_ready_started:
  "start_ready opts clk ss ready ctx = (ps, ctx') \<Longrightarrow>
     list_all (is_ready ss (completedSteps ctx)) ready \<Longrightarrow>
     list_all (started_ok ss) (started ctx) \<Longrightarrow> list_all (started_ok ss) (started ctx')"
proof (induction ready arbitrary: ctx ps ctx')
  case Nil
  then show ?case by simp
next
  case (Cons sid rest)
  from Cons.prems(2) obtain step where f: "find_step ss sid = Some step"
    and dm: "dependenciesMet step (completedSteps ctx)"
    by (auto simp: is_ready_def split: option.splits)
  obtain p c1 where b: "executeStep_begin opts clk step (ctx\<lparr>currentStep := Some step\<rparr>) = (p, c1)"
    by (cases "executeStep_begin opts clk step (ctx\<lparr>currentStep := Some step\<rparr>)")
  obtain ps' c2 where r: "start_ready opts clk ss rest c1 = (ps', c2)"
    by (cases "start_ready opts clk ss rest c1")
  from b have c1: "completedSteps c1 = completedSteps ctx"
    by (auto dest: executeStep_begin_completed)
  from b have s1: "started c1 = started ctx @ [(sid, completedSteps ctx)]"
    using find_step_id [OF f] by (auto dest: executeStep_begin_started)
  have "started_ok ss (sid, completedSteps ctx)"
    using f dm by (simp add: started_ok_def)
  then have "list_all (started_ok ss) (started c1)"
    using Cons.prems(3) by (simp add: s1)
  moreover have "list_all (is_ready ss (completedSteps c1)) rest"
    using Cons.prems(2) by (simp add: c1)
  ultimately have "list_all (started_ok ss) (started c2)"
    using Cons.IH [OF r] by simp
  moreover from Cons.prems(1) f b r have "ctx' = c2" by simp
  ultimately show ?case by simp
qed

lemma on_complete_started: "started (on_complete opts step r ctx) = started ctx"
  by (simp add: on_complete_def Let_def)

lemma executeStep_resume_started:
  "started (snd (executeStep_resume clk step t0 outcome ctx)) = started ctx"
  by (simp add: executeStep_resume_def Let_def split: sum.splits)

lemma run_jobs_started:
  "started (snd (run_jobs opts clk ps ctx)) = started ctx"
proof (induction opts clk ps ctx rule: run_jobs.induct)
  case (3 opts clk step t0 outcome rest ctx)
  then show ?case
    using executeStep_resume_started [of clk step t0 outcome ctx]
    by (auto split: prod.splits)
qed (simp_all add: on_complete_started)

lemma foldl_on_complete_started:
  "started (foldl (\<lambda>c (step, r). on_complete opts step r c) ctx later) = started ctx"
  by (induction later arbitrary: ctx) (auto simp: on_complete_started)

lemma settle_all_started: "started (settle_all opts clk ps ctx) = started ctx"
  using run_jobs_started [of opts clk ps ctx]
  by (auto simp: settle_all_def foldl_on_complete_started split: prod.splits)

lemma parallel_round_started:
  assumes "parallel_round opts clk ss pending ctx = (ready, pending', ctx')"
    and "list_all (started_ok ss) (started ctx)"
  shows "list_all (started_ok ss) (started ctx')"
proof -
  let ?ready = "filter (is_ready ss (completedSteps ctx)) pending"
  obtain ps c1 where s: "start_ready opts clk ss ?ready ctx = (ps, c1)"
    by (cases "start_ready opts clk ss ?ready ctx")
  have "list_all (is_ready ss (completedSteps ctx)) ?ready"
    by (simp add: list_all_iff)
  with s have "list_all (started_ok ss) (started c1)"
    using assms(2) by (rule start_ready_started)
  moreover from assms(1) s have "started ctx' = started c1"
    by (auto simp: parallel_round_def Let_def settle_all_started split: if_splits)
  ultimately show ?thesis by simp
qed

lemma executeParallel_loop_started:
  "executeParallel_loop opts clk ss pending ctx = (e, ctx') \<Longrightarrow>
     list_all (started_ok ss) (started ctx) \<Longrightarrow> list_all (started_ok ss) (started ctx')"
proof (induction opts clk ss pending ctx rule: executeParallel_loop.induct)
  case (1 opts clk ss pending ctx)
  show ?case
  proof (cases "pending = []")
    case True
    with "1.prems" show ?thesis by (simp add: executeParallel_loop.simps)
  next
    case False
    obtain ready pending' c1 where pr: "parallel_round opts clk ss pending ctx = (ready, pending', c1)"
      by (cases "parallel_round opts clk ss pending ctx") auto
    then have d1: "list_all (started_ok ss) (started c1)"
      using "1.prems"(2) by (rule parallel_round_started)
    show ?thesis
    proof (cases "ready = [] \<and> pending' \<noteq> []")
      case True
      with False pr "1.prems"(1) d1 show ?thesis
        by (simp add: executeParallel_loop.simps)
    next
      case nd: False
      with False pr "1.prems"(1)
      have "executeParallel_loop opts clk ss pending' c1 = (e, ctx')"
        by (simp add: executeParallel_loop.simps)
      with "1.IH" [OF False pr [symmetric] refl nd] d1 show ?thesis by simp
    qed
  qed
qed

lemma parallel_run_started:
  assumes "parallel opts"
  shows "list_all (started_ok (steps w)) (started (snd (run opts clk w)))"
proof -
  obtain e c where l: "executeParallel_loop opts clk (steps w) (new_Set (map step_id (steps w)))
      (initial_context clk) = (e, c)"
    by (cases "executeParallel_loop opts clk (steps w) (new_Set (map step_id (steps w)))
      (initial_context clk)")
  then have "list_all (started_ok (steps w)) (started c)"
    by (rule executeParallel_loop_started) (simp add: initial_context_simps)
  with l assms show ?thesis
    by (simp add: run_def executeParallel_def Let_def)
qed

lemma valid_type_output:
  "step_type s \<in> set validTypes \<Longrightarrow> \<exists>out. executeStepByType s = Inr out"
  by (auto simp: validTypes_def executeStepByType_def)

text \<open>
  Claim C3. In parallel mode, whenever \<open>executeStep\<close> is entered for a step, every
  declared dependency of that step has a StepResult with success = true in the result map
  as it is at that moment. In the diamond (A; B and C depend on A; D depends on B and C)
  with distinct ids, known types and no timeout at the clock readings of the run, A is
  started on the empty map, B and C are both started on the map that holds exactly A's
  result (so together, in the second round), and D on the map that holds A's, B's and C's;
  all four succeed.
\<close>

theorem parallel_dependency_order:
  assumes par: "parallel opts"
  shows "(\<forall>sid snap. (sid, snap) \<in> set (started (snd (run opts clk w))) \<longrightarrow>
            (\<exists>step. find_step (steps w) sid = Some step \<and>
               (\<forall>dep \<in> set (dependencies step). \<exists>r. map_of snap dep = Some r \<and> success r)))
     \<and> (steps w = [A, B, C, D] \<and> step_id A = a \<and> step_id B = b \<and> step_id C = c \<and>
         step_id D = d \<and> distinct [a, b, c, d] \<and>
         dependencies A = [] \<and> dependencies B = [a] \<and> dependencies C = [a] \<and>
         dependencies D = [b, c] \<and>
         (\<forall>s \<in> set [A, B, C, D]. step_type s \<in> set validTypes) \<and>
         (\<forall>k \<le> 11. clk k - clk 0 \<le> timeout opts) \<longrightarrow>
           map (\<lambda>(s, snap). (s, map fst snap)) (started (snd (run opts clk w))) =
             [(a, []), (b, [a]), (c, [a]), (d, [a, b, c])]
         \<and> map fst (stepResults (execute opts clk w)) = [a, b, c, d]
         \<and> wr_success (execute opts clk w))"
proof (intro conjI allI impI)
  fix sid snap
  assume "(sid, snap) \<in> set (started (snd (run opts clk w)))"
  with parallel_run_started [OF par, of w clk] have "started_ok (steps w) (sid, snap)"
    by (auto simp: list_all_iff)
  then show "\<exists>step. find_step (steps w) sid = Some step \<and>
               (\<forall>dep \<in> set (dependencies step). \<exists>r. map_of snap dep = Some r \<and> success r)"
    by (auto simp: started_ok_def dependenciesMet_iff split: option.splits)
next
  assume h: "steps w = [A, B, C, D] \<and> step_id A = a \<and> step_id B = b \<and> step_id C = c \<and>
         step_id D = d \<and> distinct [a, b, c, d] \<and>
         dependencies A = [] \<and> dependencies B = [a] \<and> dependencies C = [a] \<and>
         dependencies D = [b, c] \<and>
         (\<forall>s \<in> set [A, B, C, D]. step_type s \<in> set validTypes) \<and>
         (\<forall>k \<le> 11. clk k - clk 0 \<le> timeout opts)"
  then obtain oA oB oC oD where out: "executeStepByType A = Inr oA" "executeStepByType B = Inr oB"
      "executeStepByType C = Inr oC" "executeStepByType D = Inr oD"
    using valid_type_output by (metis list.set_intros(1,2))
  have nt: "\<And>k. k \<le> 11 \<Longrightarrow> (timeout opts < clk k - clk 0) = False"
    using h by (simp add: not_less)
  from h have ne: "a \<noteq> b" "a \<noteq> c" "a \<noteq> d" "b \<noteq> c" "b \<noteq> d" "c \<noteq> d"
     "b \<noteq> a" "c \<noteq> a" "d \<noteq> a" "c \<noteq> b" "d \<noteq> b" "d \<noteq> c"
    by auto
  from h have st: "steps w = [A, B, C, D]"
    and ids: "step_id A = a" "step_id B = b" "step_id C = c" "step_id D = d"
    and deps: "dependencies A = []" "dependencies B = [a]" "dependencies C = [a]"
       "dependencies D = [b, c]"
    by simp_all
  have "map (\<lambda>(s, snap). (s, map fst snap)) (started (snd (run opts clk w))) =
             [(a, []), (b, [a]), (c, [a]), (d, [a, b, c])]
         \<and> map fst (stepResults (execute opts clk w)) = [a, b, c, d]
         \<and> wr_success (execute opts clk w)"
    using par
    by (simp add: execute_def run_def executeParallel_def initial_context_def st ids ne deps out nt
       executeParallel_loop.simps parallel_round_def is_ready_def find_step_def
       dependenciesMet_def executeStep_begin_def executeStep_resume_def settle_all_def
       on_complete_def allStepsSucceeded_def Let_def)
  then show "map (\<lambda>(s, snap). (s, map fst snap)) (started (snd (run opts clk w))) =
             [(a, []), (b, [a]), (c, [a]), (d, [a, b, c])]"
    and "map fst (stepResults (execute opts clk w)) = [a, b, c, d]"
    and "wr_success (execute opts clk w)"
    by simp_all
qed

theorem parallel_dependency_order_witness:
  "map (\<lambda>(s, snap). (s, map fst snap))
     (started (snd (run (mk_options 1000 False True) tick_clock
        (mk_workflow [mk_step ''a'' ''analysis'' ''A'' [], mk_step ''b'' ''fix'' ''B'' [''a''],
           mk_step ''c'' ''test'' ''C'' [''a''], mk_step ''d'' ''deploy'' ''D'' [''b'', ''c'']])))) =
     [(''a'', []), (''b'', [''a'']), (''c'', [''a'']), (''d'', [''a'', ''b'', ''c''])]
   \<and> wr_success (execute (mk_options 1000 False True) tick_clock
        (mk_workflow [mk_step ''a'' ''analysis'' ''A'' [], mk_step ''b'' ''fix'' ''B'' [''a''],
           mk_step ''c'' ''test'' ''C'' [''a''], mk_step ''d'' ''deploy'' ''D'' [''b'', ''c'']]))"
proof -
  let ?opts = "mk_options 1000 False True"
  let ?A = "mk_step ''a'' ''analysis'' ''A'' []"
  let ?B = "mk_step ''b'' ''fix'' ''B'' [''a'']"
  let ?C = "mk_step ''c'' ''test'' ''C'' [''a'']"
  let ?D = "mk_step ''d'' ''deploy'' ''D'' [''b'', ''c'']"
  let ?w = "mk_workflow [?A, ?B, ?C, ?D]"
  have p: "parallel ?opts" by (simp add: mk_options_def)
  have h: "steps ?w = [?A, ?B, ?C, ?D] \<and> step_id ?A = ''a'' \<and> step_id ?B = ''b'' \<and>
         step_id ?C = ''c'' \<and> step_id ?D = ''d'' \<and> distinct [''a'', ''b'', ''c'', ''d''] \<and>
         dependencies ?A = [] \<and> dependencies ?B = [''a''] \<and> dependencies ?C = [''a''] \<and>
         dependencies ?D = [''b'', ''c''] \<and>
         (\<forall>s \<in> set [?A, ?B, ?C, ?D]. step_type s \<in> set validTypes) \<and>
         (\<forall>k \<le> 11. tick_clock k - tick_clock 0 \<le> timeout ?opts)"
    by (simp add: mk_workflow_def mk_step_def mk_options_def validTypes_def tick_clock_def)
  from parallel_dependency_order [OF p, where w = ?w and clk = tick_clock and A = ?A and B = ?B
      and C = ?C and D = ?D and a = "''a''" and b = "''b''" and c = "''c''" and d = "''d''"] h
  show ?thesis by blast
qed

subsection \<open>Parallel mode: a failed step without continue-on-error\<close>

text \<open>
  Claim C4 at two concrete runs in parallel mode with continue-on-error = false.
  In the first, the steps are A and B (no dependency) and C (depends on A), the timeout is
  2 ms and the clock advances 1 ms per reading: in the first round A passes its timeout
  check and B fails it. The error thrown in B's completion callback is lost
  (\<open>unhandled\<close>), the loop goes on, and in the second round C is started with B's failed
  result already in the map. The error list of the result is empty.
  In the second run A has a type that the executor does not know and C depends on B: C is
  started after A's failure and succeeds.
\<close>

theorem parallel_failure_keeps_scheduling:
  "map (\<lambda>(s, snap). (s, map (\<lambda>(k, r). (k, success r)) snap))
     (started (snd (run (mk_options 2 False True) tick_clock
        (mk_workflow [mk_step ''a'' ''analysis'' ''A'' [], mk_step ''b'' ''fix'' ''B'' [],
           mk_step ''c'' ''test'' ''C'' [''a'']])))) =
     [(''a'', []), (''b'', []), (''c'', [(''b'', False), (''a'', True)])]
   \<and> unhandled (snd (run (mk_options 2 False True) tick_clock
        (mk_workflow [mk_step ''a'' ''analysis'' ''A'' [], mk_step ''b'' ''fix'' ''B'' [],
           mk_step ''c'' ''test'' ''C'' [''a'']]))) = [''Step failed: B'', ''Step failed: C'']
   \<and> errors (execute (mk_options 2 False True) tick_clock
        (mk_workflow [mk_step ''a'' ''analysis'' ''A'' [], mk_step ''b'' ''fix'' ''B'' [],
           mk_step ''c'' ''test'' ''C'' [''a'']])) = []
   \<and> map (\<lambda>(s, snap). (s, map (\<lambda>(k, r). (k, success r)) snap))
     (started (snd (run (mk_options 1000 False True) tick_clock
        (mk_workflow [mk_step ''a'' ''bogus'' ''A'' [], mk_step ''b'' ''fix'' ''B'' [],
           mk_step ''c'' ''test'' ''C'' [''b'']])))) =
     [(''a'', []), (''b'', []), (''c'', [(''a'', False), (''b'', True)])]
   \<and> unhandled (snd (run (mk_options 1000 False True) tick_clock
        (mk_workflow [mk_step ''a'' ''bogus'' ''A'' [], mk_step ''b'' ''fix'' ''B'' [],
           mk_step ''c'' ''test'' ''C'' [''b'']]))) = [''Step failed: A'']
   \<and> errors (execute (mk_options 1000 False True) tick_clock
        (mk_workflow [mk_step ''a'' ''bogus'' ''A'' [], mk_step ''b'' ''fix'' ''B'' [],
           mk_step ''c'' ''test'' ''C'' [''b'']])) = []
   \<and> map (\<lambda>(k, r). (k, success r))
       (stepResults (execute (mk_options 1000 False True) tick_clock
        (mk_workflow [mk_step ''a'' ''bogus'' ''A'' [], mk_step ''b'' ''fix'' ''B'' [],
           mk_step ''c'' ''test'' ''C'' [''b'']]))) =
     [(''a'', False), (''b'', True), (''c'', True)]"
  by code_simp

section \<open>Properties of the validator\<close>

subsection \<open>A cycle of three steps\<close>

lemma three_cycle_detected:
  assumes "step_id A = a" "step_id B = b" "step_id C = c" "distinct [a, b, c]"
    "dependencies A = [c]" "dependencies B = [a]" "dependencies C = [b]"
  shows "detectCircularDependencies [A, B, C] = [a @ '' -> '' @ c @ '' -> '' @ b]"
proof -
  from assms(4) have ne: "a \<noteq> b" "a \<noteq> c" "b \<noteq> c" "b \<noteq> a" "c \<noteq> a" "c \<noteq> b"
    by auto
  have g: "build_graph [A, B, C] = [(a, [c]), (b, [a]), (c, [b])]"
    using assms ne by (simp add: build_graph_def)
  show ?thesis
    using assms(1-3) ne
    by (simp add: detectCircularDependencies_def g dfs_init_def graph_get_def slice_from_def
          dfs.simps)
qed

lemma self_loop_detected:
  assumes "dependencies S = [step_id S]"
  shows "detectCircularDependencies [S] = [step_id S]"
  using assms
  by (simp add: detectCircularDependencies_def build_graph_def dfs_init_def graph_get_def
        slice_from_def dfs.simps)

text \<open>
  Claim C7. For every workflow whose steps are A, B, C with distinct ids, B depending on
  A, C on B and A on C, \<open>validate\<close> reports valid = false, with a CIRCULAR_DEPS error
  whose message is "Circular dependencies detected: " followed by the cycle as the search
  from A finds it (A, then C, then B), so it contains the three ids. The search
  terminates on every graph and from every state (\<open>dfs\<close> and its loop are total: every
  argument is in the domain of the recursion), also on a step that depends on itself,
  which is reported as a cycle of that one id.
\<close>

theorem validate_three_cycle:
  assumes "steps w = [A, B, C]"
    and "step_id A = a" and "step_id B = b" and "step_id C = c" and "distinct [a, b, c]"
    and "dependencies A = [c]" and "dependencies B = [a]" and "dependencies C = [b]"
  shows "\<not> valid (validate w)
     \<and> (\<exists>e \<in> set (v_errors (validate w)). code e = ''CIRCULAR_DEPS''
           \<and> message e = ''Circular dependencies detected: '' @ a @ '' -> '' @ c @ '' -> '' @ b
           \<and> sublist a (message e) \<and> sublist b (message e) \<and> sublist c (message e))
     \<and> All dfs_dfs_neighbors_dom
     \<and> (\<forall>S. dependencies S = [step_id S] \<longrightarrow> detectCircularDependencies [S] = [step_id S])"
proof -
  let ?m = "''Circular dependencies detected: '' @ a @ '' -> '' @ c @ '' -> '' @ b"
  have d: "detectCircularDependencies (steps w) = [a @ '' -> '' @ c @ '' -> '' @ b]"
    using assms by (simp add: three_cycle_detected)
  have m: "mk_error ?m ''CIRCULAR_DEPS'' None \<in> set (v_errors (validate w))"
    by (simp add: validate_def Let_def d)
  have nv: "\<not> valid (validate w)"
    by (simp add: validate_def Let_def d)
  have sa: "sublist a ?m" by (rule sublist_appendI [of a "''Circular dependencies detected: ''", simplified append_assoc])
  have sc: "sublist c ?m"
    using sublist_appendI [of c "''Circular dependencies detected: '' @ a @ '' -> ''" "'' -> '' @ b"]
    by simp
  have sb: "sublist b ?m"
    using sublist_appendI [of b "''Circular dependencies detected: '' @ a @ '' -> '' @ c @ '' -> ''" "[]"]
    by simp
  have "code (mk_error ?m ''CIRCULAR_DEPS'' None) = ''CIRCULAR_DEPS''"
    "message (mk_error ?m ''CIRCULAR_DEPS'' None) = ?m"
    by (simp_all add: mk_error_def)
  with m sa sb sc have "\<exists>e \<in> set (v_errors (validate w)). code e = ''CIRCULAR_DEPS''
           \<and> message e = ?m \<and> sublist a (message e) \<and> sublist b (message e) \<and> sublist c (message e)"
    by (metis (no_types, lifting))
  with nv dfs_total self_loop_detected show ?thesis by blast
qed

theorem validate_three_cycle_witness:
  "\<not> valid (validate (mk_workflow [mk_step ''a'' ''analysis'' ''A'' [''c''],
       mk_step ''b'' ''fix'' ''B'' [''a''], mk_step ''c'' ''test'' ''C'' [''b'']]))
   \<and> map message (v_errors (validate (mk_workflow [mk_step ''a'' ''analysis'' ''A'' [''c''],
       mk_step ''b'' ''fix'' ''B'' [''a''], mk_step ''c'' ''test'' ''C'' [''b'']])))
     = [''Circular dependencies detected: a -> c -> b'']"
proof -
  let ?A = "mk_step ''a'' ''analysis'' ''A'' [''c'']"
  let ?B = "mk_step ''b'' ''fix'' ''B'' [''a'']"
  let ?C = "mk_step ''c'' ''test'' ''C'' [''b'']"
  let ?w = "mk_workflow [?A, ?B, ?C]"
  have "\<not> valid (validate ?w)"
    using validate_three_cycle [where w = ?w and A = ?A and B = ?B and C = ?C
        and a = "''a''" and b = "''b''" and c = "''c''"]
    by (simp add: mk_workflow_def mk_step_def)
  moreover have "map message (v_errors (validate ?w))
      = [''Circular dependencies detected: a -> c -> b'']"
    by code_simp
  ultimately show ?thesis by simp
qed

section \<open>Properties of the builder\<close>

subsection \<open>Step ids\<close>

lemma digit_value_char: "d < 10 \<Longrightarrow> digit_value (digit_char d) = d"
  by (simp add: digit_value_def digit_char_def)

lemma decimal_value_decimal: "decimal_value (decimal n) = n"
proof (induction n rule: decimal.induct)
  case (1 n)
  show ?case
  proof (cases "10 \<le> n")
    case True
    with 1 have "decimal_value (decimal (n div 10)) = n div 10" by simp
    with True show ?thesis
      by (subst decimal.simps) (simp add: decimal_value_def digit_value_char)
  next
    case False
    then show ?thesis
      by (subst decimal.simps) (simp add: decimal_value_def digit_value_char)
  qed
qed

lemma decimal_inj: "decimal m = decimal n \<Longrightarrow> m = n"
  by (metis decimal_value_decimal)

lemma assemble_snoc: "assemble nm now (calls @ [c]) = call (assemble nm now calls) c"
  by (simp add: assemble_def)

lemma call_steps:
  "b_steps (call b c) = b_steps b \<or>
   (\<exists>s. b_steps (call b c) = b_steps b @ [s] \<and> step_id s = next_id b)"
  by (cases c)
     (simp_all add: withDescription_def addAnalysisStep_def addAutoFixStep_def addTestStep_def
        addDeployStep_def addCustomStep_def push_step_def)

lemma assemble_ids:
  "map step_id (b_steps (assemble nm now calls)) =
     map (\<lambda>i. ''step_'' @ decimal (Suc i)) [0..<length (b_steps (assemble nm now calls))]"
proof (induction calls rule: rev_induct)
  case Nil
  then show ?case by (simp add: assemble_def new_WorkflowBuilder_def)
next
  case (snoc c calls)
  from call_steps [of "assemble nm now calls" c] snoc show ?case
    by (auto simp: assemble_snoc next_id_def)
qed

lemma assemble_distinct: "distinct (map step_id (b_steps (assemble nm now calls)))"
proof -
  have "inj_on (\<lambda>i. ''step_'' @ decimal (Suc i)) A" for A
    by (auto simp: inj_on_def dest: decimal_inj)
  then show ?thesis
    by (subst assemble_ids) (simp add: distinct_map)
qed

lemma assemble_ids_nonempty:
  "s \<in> set (b_steps (assemble nm now calls)) \<Longrightarrow> step_id s \<noteq> []"
proof -
  assume "s \<in> set (b_steps (assemble nm now calls))"
  then have "step_id s \<in> set (map step_id (b_steps (assemble nm now calls)))" by simp
  then show ?thesis by (subst (asm) assemble_ids) auto
qed

lemma assemble_prev_deps:
  "prev_deps (assemble nm now calls) =
     (if b_steps (assemble nm now calls) = [] then []
      else [step_id (last (b_steps (assemble nm now calls)))])"
  using assemble_ids_nonempty [of "last (b_steps (assemble nm now calls))" nm now calls]
  by (auto simp: prev_deps_def prevStepId_def)

subsection \<open>Default chaining\<close>

text \<open>
  Claim C9, as stated, fails for the analysis step: added after a test step, it gets the
  generated id \<open>step_2\<close> and an empty dependency list, not the id of the preceding step.
\<close>

theorem analysis_step_counterexample:
  "map step_id (b_steps (assemble None 0 [AddTestStep None, AddAnalysisStep None])) =
     [''step_1'', ''step_2'']
   \<and> map dependencies (b_steps (assemble None 0 [AddTestStep None, AddAnalysisStep None])) =
     [[], []]"
  by code_simp

text \<open>
  Claim C9, amended. On a builder reached by any sequence of calls, each of
  \<open>addAutoFixStep\<close>, \<open>addTestStep\<close> and \<open>addDeployStep\<close> appends one step whose id is
  generated (\<open>step_\<close> and the number of steps so far plus one) and whose dependency list is
  exactly the id of the immediately preceding step, or empty when it is the first step;
  \<open>addAnalysisStep\<close> appends a step with the generated id and an empty dependency list,
  whether or not it is the first.
\<close>

theorem builder_chaining:
  "b_steps (addAutoFixStep cfg (assemble nm now calls)) =
      b_steps (assemble nm now calls) @
        [\<lparr>step_id = ''step_'' @ decimal (length (b_steps (assemble nm now calls)) + 1),
          step_type = ''fix'', step_name = ''Auto Fix'', step_config = config_arg cfg,
          dependencies = (if b_steps (assemble nm now calls) = [] then []
                          else [step_id (last (b_steps (assemble nm now calls)))])\<rparr>]
   \<and> b_steps (addTestStep cfg (assemble nm now calls)) =
      b_steps (assemble nm now calls) @
        [\<lparr>step_id = ''step_'' @ decimal (length (b_steps (assemble nm now calls)) + 1),
          step_type = ''test'', step_name = ''Run Tests'', step_config = config_arg cfg,
          dependencies = (if b_steps (assemble nm now calls) = [] then []
                          else [step_id (last (b_steps (assemble nm now calls)))])\<rparr>]
   \<and> b_steps (addDeployStep cfg (assemble nm now calls)) =
      b_steps (assemble nm now calls) @
        [\<lparr>step_id = ''step_'' @ decimal (length (b_steps (assemble nm now calls)) + 1),
          step_type = ''deploy'', step_name = ''Deploy'', step_config = config_arg cfg,
          dependencies = (if b_steps (assemble nm now calls) = [] then []
                          else [step_id (last (b_steps (assemble nm now calls)))])\<rparr>]
   \<and> b_steps (addAnalysisStep cfg (assemble nm now calls)) =
      b_steps (assemble nm now calls) @
        [\<lparr>step_id = ''step_'' @ decimal (length (b_steps (assemble nm now calls)) + 1),
          step_type = ''analysis'', step_name = ''Code Analysis'', step_config = config_arg cfg,
          dependencies = []\<rparr>]"
  by (simp add: addAutoFixStep_def addTestStep_def addDeployStep_def addAnalysisStep_def
        push_step_def next_id_def assemble_prev_deps)

theorem builder_chaining_witness:
  "map dependencies (b_steps (addAutoFixStep None (assemble None 0 [AddAnalysisStep None]))) =
     [[], [''step_1'']]
   \<and> map step_id (b_steps (addAutoFixStep None (assemble None 0 [AddAnalysisStep None]))) =
     [''step_1'', ''step_2'']"
proof -
  have s: "b_steps (assemble None 0 [AddAnalysisStep None]) =
      [\<lparr>step_id = ''step_1'', step_type = ''analysis'', step_name = ''Code Analysis'',
        step_config = Some [], dependencies = []\<rparr>]"
    by code_simp
  have d: "decimal (Suc (Suc 0)) = ''2''" by code_simp
  from builder_chaining [of None None 0 "[AddAnalysisStep None]"]
  have "b_steps (addAutoFixStep None (assemble None 0 [AddAnalysisStep None])) =
      b_steps (assemble None 0 [AddAnalysisStep None]) @
        [\<lparr>step_id = ''step_'' @ decimal (length (b_steps (assemble None 0 [AddAnalysisStep None])) + 1),
          step_type = ''fix'', step_name = ''Auto Fix'', step_config = config_arg None,
          dependencies = (if b_steps (assemble None 0 [AddAnalysisStep None]) = [] then []
                          else [step_id (last (b_steps (assemble None 0 [AddAnalysisStep None])))])\<rparr>]"
    by blast
  then show ?thesis by (simp add: s d)
qed

subsection \<open>The execute method of a built workflow\<close>

lemma update_fresh: "k \<notin> fst ` set xs \<Longrightarrow> AList.update k v xs = xs @ [(k, v)]"
  by (induction xs) auto

lemma failed_dep_None:
  "failed_dep results deps = None \<longleftrightarrow>
     (\<forall>dep \<in> set deps. \<exists>r. map_of results dep = Some r \<and> success r)"
  by (auto simp: failed_dep_def find_None_iff split: option.splits)

lemma map_of_nth:
  assumes "distinct (map fst xs)"
  shows "map_of xs k = Some v \<longleftrightarrow> (\<exists>j < length xs. xs ! j = (k, v))"
  using assms by (auto simp: in_set_conv_nth)

lemma exec_inv_step:
  assumes inv: "exec_inv ss st" and fresh: "step_id s \<notin> set (map step_id ss)"
    and dist: "distinct (map step_id ss)"
  shows "exec_inv (ss @ [s]) (workflow_step clk st s)"
proof -
  let ?xs = "e_results st"
  let ?n = "length ss"
  from inv have keys: "map fst ?xs = map step_id ss" by (simp add: exec_inv_def)
  then have len: "length ?xs = ?n" by (metis length_map)
  from keys fresh have fr: "step_id s \<notin> fst ` set ?xs" by (metis set_map)
  from keys dist have dx: "distinct (map fst ?xs)" by simp
  have fstnth: "fst (?xs ! j) = step_id (ss ! j)" if "j < ?n" for j
    using keys that len by (metis nth_map)
  have met: "failed_dep ?xs (dependencies s) = None \<longleftrightarrow>
      (\<forall>dep \<in> set (dependencies s). \<exists>j < ?n. step_id (ss ! j) = dep \<and> success (snd (?xs ! j)))"
    (is "?L \<longleftrightarrow> ?R")
  proof
    assume ?L
    show ?R
    proof
      fix dep assume "dep \<in> set (dependencies s)"
      with \<open>?L\<close> obtain r where "map_of ?xs dep = Some r" "success r"
        by (auto simp: failed_dep_None)
      then obtain j where "j < length ?xs" "?xs ! j = (dep, r)"
        using map_of_nth [OF dx] by blast
      with \<open>success r\<close> fstnth [of j] len
      show "\<exists>j < ?n. step_id (ss ! j) = dep \<and> success (snd (?xs ! j))"
        by (intro exI [of _ j]) auto
    qed
  next
    assume r: ?R
    show ?L
      unfolding failed_dep_None
    proof
      fix dep assume "dep \<in> set (dependencies s)"
      with r obtain j where j: "j < ?n" "step_id (ss ! j) = dep" "success (snd (?xs ! j))"
        by blast
      then have "?xs ! j = (dep, snd (?xs ! j))"
        using fstnth [of j] by (metis prod.collapse)
      with j len have "map_of ?xs dep = Some (snd (?xs ! j))"
        using map_of_nth [OF dx, of dep "snd (?xs ! j)"] by auto
      with j show "\<exists>r. map_of ?xs dep = Some r \<and> success r" by blast
    qed
  qed
  define d where "d = clk (e_ticks st + 1) - clk (e_ticks st)"
  define res where "res = (case failed_dep ?xs (dependencies s) of
      None \<Rightarrow> \<lparr>stepId = step_id s, success = True, sr_output = placeholder_executeStep s,
                 duration = d, error = None\<rparr>
    | Some depId \<Rightarrow> \<lparr>stepId = step_id s, success = False, sr_output = Null, duration = d,
                 error = Some (''Dependency '' @ depId @ '' failed or not completed'')\<rparr>)"
  have res: "e_results (workflow_step clk st s) = ?xs @ [(step_id s, res)]"
    by (cases "failed_dep ?xs (dependencies s)")
       (simp_all add: workflow_step_def Let_def update_fresh [OF fr] res_def d_def)
  have rid: "stepId res = step_id s"
    by (cases "failed_dep ?xs (dependencies s)") (simp_all add: res_def)
  have rs: "success res \<longleftrightarrow> failed_dep ?xs (dependencies s) = None"
    by (cases "failed_dep ?xs (dependencies s)") (simp_all add: res_def)
  have errs: "map Some (e_errors (workflow_step clk st s)) =
        map Some (e_errors st) @ (if success res then [] else [error res])"
    by (cases "failed_dep ?xs (dependencies s)")
       (simp_all add: workflow_step_def Let_def res_def)
  let ?R = "e_results (workflow_step clk st s)"
  have Rold: "?R ! j = ?xs ! j" if "j < ?n" for j
    using that len by (simp add: res nth_append)
  have Sold: "(ss @ [s]) ! j = ss ! j" if "j < ?n" for j
    using that by (simp add: nth_append)
  have Rnew: "?R ! ?n = (step_id s, res)"
    using len by (simp add: res nth_append)
  have a: "map fst ?R = map step_id (ss @ [s])"
    by (simp add: res keys)
  have b: "stepId (snd (?R ! i)) = step_id ((ss @ [s]) ! i)
      \<and> (success (snd (?R ! i)) \<longleftrightarrow>
           (\<forall>dep \<in> set (dependencies ((ss @ [s]) ! i)).
              \<exists>j < i. step_id ((ss @ [s]) ! j) = dep \<and> success (snd (?R ! j))))"
    if "i < length (ss @ [s])" for i
  proof (cases "i < ?n")
    case True
    from inv True have o:
      "stepId (snd (?xs ! i)) = step_id (ss ! i)
      \<and> (success (snd (?xs ! i)) \<longleftrightarrow>
           (\<forall>dep \<in> set (dependencies (ss ! i)).
              \<exists>j < i. step_id (ss ! j) = dep \<and> success (snd (?xs ! j))))"
      by (simp add: exec_inv_def)
    have r: "?R ! j = ?xs ! j" "(ss @ [s]) ! j = ss ! j" if "j < i" for j
      using that True Rold [of j] Sold [of j] by simp_all
    show ?thesis
      using o by (simp add: Rold [OF True] Sold [OF True] r cong: conj_cong)
  next
    case False
    with that have i: "i = ?n" by simp
    show ?thesis
      unfolding i by (simp add: Rnew rid rs met Rold Sold cong: conj_cong)
  qed
  have c: "map Some (e_errors (workflow_step clk st s)) =
       map (\<lambda>p. error (snd p))
         (filter (\<lambda>p. \<not> success (snd p)) (e_results (workflow_step clk st s)))"
    using inv by (simp add: errs res exec_inv_def)
  from a b c show ?thesis unfolding exec_inv_def by blast
qed

lemma exec_inv_foldl:
  "distinct (map step_id ss) \<Longrightarrow>
     exec_inv ss (foldl (workflow_step clk) \<lparr>e_results = [], e_errors = [], e_ticks = 1\<rparr> ss)"
proof (induction ss rule: rev_induct)
  case Nil
  then show ?case by (simp add: exec_inv_def)
next
  case (snoc s ss)
  then show ?case by (simp add: exec_inv_step)
qed

text \<open>
  Claim C10. For every workflow built by the builder after any sequence of calls, the
  step ids are distinct and the workflow's own \<open>execute\<close> stores exactly one StepResult
  per step, in step order, under the step's id (so no step is absent and the run never
  stops early). The result of a step is a success exactly when each of its dependencies is
  the id of an earlier step whose result is a success; otherwise (a dependency with no
  result yet or a failed one) it is a failed StepResult. The error list holds the errors of
  the failed StepResults, in order, and overall success is the emptiness of that list.
\<close>

theorem built_workflow_execute:
  "distinct (map step_id (steps (build (assemble nm now calls))))
   \<and> map fst (stepResults (workflow_execute clk (build (assemble nm now calls)))) =
       map step_id (steps (build (assemble nm now calls)))
   \<and> (\<forall>i < length (steps (build (assemble nm now calls))).
        stepId (snd (stepResults (workflow_execute clk (build (assemble nm now calls))) ! i)) =
          step_id (steps (build (assemble nm now calls)) ! i)
      \<and> (success (snd (stepResults (workflow_execute clk (build (assemble nm now calls))) ! i)) \<longleftrightarrow>
           (\<forall>dep \<in> set (dependencies (steps (build (assemble nm now calls)) ! i)).
              \<exists>j < i. step_id (steps (build (assemble nm now calls)) ! j) = dep \<and>
                success (snd (stepResults (workflow_execute clk (build (assemble nm now calls))) ! j)))))
   \<and> map Some (errors (workflow_execute clk (build (assemble nm now calls)))) =
       map (\<lambda>p. error (snd p))
         (filter (\<lambda>p. \<not> success (snd p))
            (stepResults (workflow_execute clk (build (assemble nm now calls)))))
   \<and> (wr_success (workflow_execute clk (build (assemble nm now calls))) \<longleftrightarrow>
        errors (workflow_execute clk (build (assemble nm now calls))) = [])"
proof -
  let ?ss = "b_steps (assemble nm now calls)"
  have d: "distinct (map step_id ?ss)" by (rule assemble_distinct)
  from exec_inv_foldl [OF d, of clk] show ?thesis
    unfolding exec_inv_def
    by (simp add: workflow_execute_def build_def Let_def d)
qed

theorem built_workflow_execute_witness:
  "map fst (stepResults (workflow_execute tick_clock
      (build (assemble None 0 [AddAnalysisStep None, AddCustomStep ''lint'' None [''ghost''],
                                AddTestStep None])))) = [''step_1'', ''step_2'', ''step_3'']
   \<and> errors (workflow_execute tick_clock
      (build (assemble None 0 [AddAnalysisStep None, AddCustomStep ''lint'' None [''ghost''],
                                AddTestStep None]))) =
     [''Dependency ghost failed or not completed'', ''Dependency step_2 failed or not completed'']"
proof -
  let ?w = "build (assemble None 0 [AddAnalysisStep None, AddCustomStep ''lint'' None [''ghost''],
                                AddTestStep None])"
  have ids: "map step_id (steps ?w) = [''step_1'', ''step_2'', ''step_3'']"
    by code_simp
  from built_workflow_execute [of None 0
      "[AddAnalysisStep None, AddCustomStep ''lint'' None [''ghost''], AddTestStep None]" tick_clock]
  have "map fst (stepResults (workflow_execute tick_clock ?w)) = map step_id (steps ?w)"
    by blast
  moreover have "errors (workflow_execute tick_clock ?w) =
     [''Dependency ghost failed or not completed'', ''Dependency step_2 failed or not completed'']"
    by code_simp
  ultimately show ?thesis by (simp add: ids)
qed

subsection \<open>The builder's validate and the validator\<close>

lemma build_graph_distinct:
  "distinct (map step_id ss) \<Longrightarrow>
     build_graph ss = map (\<lambda>s. (step_id s, dependencies s)) ss"
proof (induction ss rule: rev_induct)
  case Nil
  then show ?case by (simp add: build_graph_def)
next
  case (snoc s ss)
  then have "step_id s \<notin> fst ` set (map (\<lambda>s. (step_id s, dependencies s)) ss)"
    by (auto simp: image_iff)
  with snoc show ?case
    by (simp add: build_graph_def update_fresh)
qed

lemma map_of_steps:
  "map_of (map (\<lambda>s. (step_id s, dependencies s)) ss) n = map_option dependencies (find_step ss n)"
  by (induction ss) (auto simp: find_step_def)

lemma graph_get_build_graph:
  "distinct (map step_id ss) \<Longrightarrow> graph_get (build_graph ss) n = step_deps ss n"
  by (simp add: graph_get_def step_deps_def build_graph_distinct map_of_steps
           split: option.splits)

lemma dfs_hasCycle:
  "(\<forall>n. graph_get g n = step_deps ss n) \<longrightarrow>
     hasCycle ss nodeId (cycle_view st) = (fst (dfs g nodeId st), cycle_view (snd (dfs g nodeId st)))
     \<and> (if fst (dfs g nodeId st) then cycles (snd (dfs g nodeId st)) \<noteq> []
         else cycles (snd (dfs g nodeId st)) = cycles st)"
  "(\<forall>n. graph_get g n = step_deps ss n) \<longrightarrow>
     hasCycle_deps ss ns (cycle_view st) =
       (fst (dfs_neighbors g ns st), cycle_view (snd (dfs_neighbors g ns st)))
     \<and> (if fst (dfs_neighbors g ns st) then cycles (snd (dfs_neighbors g ns st)) \<noteq> []
         else cycles (snd (dfs_neighbors g ns st)) = cycles st)"
proof (induction g nodeId st and g ns st rule: dfs_dfs_neighbors.induct)
  case (1 graph nodeId st)
  let ?st1 = "st\<lparr>visited := insert nodeId (visited st),
                 recursionStack := insert nodeId (recursionStack st),
                 path := path st @ [nodeId]\<rparr>"
  show ?case
  proof
    assume G: "\<forall>n. graph_get graph n = step_deps ss n"
    have v: "cycle_view ?st1 = (cycle_view st)\<lparr>c_visited := insert nodeId (c_visited (cycle_view st)),
                 c_recursionStack := insert nodeId (c_recursionStack (cycle_view st))\<rparr>"
      by (simp add: cycle_view_def)
    note IHall = 1 [THEN mp, OF G]
    from IHall have IH: "hasCycle_deps ss (graph_get graph nodeId) (cycle_view ?st1) =
       (fst (dfs_neighbors graph (graph_get graph nodeId) ?st1),
        cycle_view (snd (dfs_neighbors graph (graph_get graph nodeId) ?st1)))"
      and IHc: "if fst (dfs_neighbors graph (graph_get graph nodeId) ?st1)
         then cycles (snd (dfs_neighbors graph (graph_get graph nodeId) ?st1)) \<noteq> []
         else cycles (snd (dfs_neighbors graph (graph_get graph nodeId) ?st1)) = cycles ?st1"
      by (rule conjunct1, rule conjunct2)
    obtain b st' where r: "dfs_neighbors graph (graph_get graph nodeId) ?st1 = (b, st')"
      by (cases "dfs_neighbors graph (graph_get graph nodeId) ?st1")
    have sd: "(case find_step ss nodeId of None \<Rightarrow> [] | Some step \<Rightarrow> dependencies step) =
        graph_get graph nodeId"
      using G by (simp add: step_deps_def)
    have h: "hasCycle ss nodeId (cycle_view st) =
        (case hasCycle_deps ss (graph_get graph nodeId) (cycle_view ?st1) of
           (True, c') \<Rightarrow> (True, c')
         | (False, c') \<Rightarrow> (False, c'\<lparr>c_recursionStack := c_recursionStack c' - {nodeId}\<rparr>))"
      by (simp only: hasCycle.simps sd v)
    show "hasCycle ss nodeId (cycle_view st) =
        (fst (dfs graph nodeId st), cycle_view (snd (dfs graph nodeId st)))
      \<and> (if fst (dfs graph nodeId st) then cycles (snd (dfs graph nodeId st)) \<noteq> []
         else cycles (snd (dfs graph nodeId st)) = cycles st)"
    proof (cases b)
      case True
      with IH r have "hasCycle ss nodeId (cycle_view st) = (True, cycle_view st')"
        by (simp add: h)
      moreover from True r have "dfs graph nodeId st = (True, st')"
        by (simp add: dfs.simps)
      moreover from True IHc r have "cycles st' \<noteq> []" by simp
      ultimately show ?thesis by simp
    next
      case False
      with IH r have "hasCycle ss nodeId (cycle_view st) =
          (False, (cycle_view st')\<lparr>c_recursionStack := c_recursionStack (cycle_view st') - {nodeId}\<rparr>)"
        by (simp add: h)
      moreover from False r have "dfs graph nodeId st =
          (False, st'\<lparr>recursionStack := recursionStack st' - {nodeId}, path := butlast (path st')\<rparr>)"
        by (simp add: dfs.simps)
      moreover from False IHc r have "cycles st' = cycles st" by simp
      ultimately show ?thesis by (simp add: cycle_view_def)
    qed
  qed
next
  case (2 graph st)
  then show ?case by simp
next
  case (3 graph neighbor rest st)
  show ?case
  proof
    assume G: "\<forall>n. graph_get graph n = step_deps ss n"
    show "hasCycle_deps ss (neighbor # rest) (cycle_view st) =
       (fst (dfs_neighbors graph (neighbor # rest) st),
        cycle_view (snd (dfs_neighbors graph (neighbor # rest) st)))
     \<and> (if fst (dfs_neighbors graph (neighbor # rest) st)
         then cycles (snd (dfs_neighbors graph (neighbor # rest) st)) \<noteq> []
         else cycles (snd (dfs_neighbors graph (neighbor # rest) st)) = cycles st)"
    proof (cases "neighbor \<notin> visited st")
      case True
      obtain b st' where r: "dfs graph neighbor st = (b, st')"
        by (cases "dfs graph neighbor st")
      from "3.IH"(1) [OF True, THEN mp, OF G]
      have h1: "hasCycle ss neighbor (cycle_view st) = (b, cycle_view st')"
        and c1: "if b then cycles st' \<noteq> [] else cycles st' = cycles st"
        by (simp_all add: r cong: if_cong)
      show ?thesis
      proof (cases b)
        case True
        with \<open>neighbor \<notin> visited st\<close> r h1 c1 show ?thesis
          by (simp add: cycle_view_def)
      next
        case False
        from "3.IH"(2) [OF True r [symmetric], THEN mp, OF _ G] False
        have "hasCycle_deps ss rest (cycle_view st') =
             (fst (dfs_neighbors graph rest st'), cycle_view (snd (dfs_neighbors graph rest st')))
           \<and> (if fst (dfs_neighbors graph rest st') then cycles (snd (dfs_neighbors graph rest st')) \<noteq> []
              else cycles (snd (dfs_neighbors graph rest st')) = cycles st')"
          by simp
        with False \<open>neighbor \<notin> visited st\<close> r h1 c1 show ?thesis
          by (simp add: cycle_view_def cong: if_cong)
      qed
    next
      case False
      show ?thesis
      proof (cases "neighbor \<in> recursionStack st")
        case True
        with False show ?thesis by (simp add: cycle_view_def)
      next
        case nr: False
        from "3.IH"(3) [OF False nr, THEN mp, OF G] False nr show ?thesis
          by (simp add: cycle_view_def cong: if_cong)
      qed
    qed
  qed
qed

lemma dfs_cycles_kept:
  assumes "\<forall>n. graph_get g n = step_deps ss n" and "cycles st \<noteq> []"
  shows "cycles (snd (dfs g nodeId st)) \<noteq> []"
  using dfs_hasCycle(1) [of g ss nodeId st] assms by (auto split: if_splits)

lemma dfs_roots_cycles_kept:
  assumes "\<forall>n. graph_get g n = step_deps ss n"
  shows "cycles st \<noteq> [] \<Longrightarrow> cycles (dfs_roots g rest st) \<noteq> []"
proof (induction rest arbitrary: st)
  case Nil
  then show ?case by simp
next
  case (Cons s rest)
  then show ?case
    using dfs_cycles_kept [OF assms, of "st\<lparr>path := []\<rparr>" "step_id s"] by simp
qed

lemma roots_agree:
  assumes G: "\<forall>n. graph_get g n = step_deps ss n"
  shows "cycles st = [] \<Longrightarrow>
     hasCycle_roots ss rest (cycle_view st) \<longleftrightarrow> cycles (dfs_roots g rest st) \<noteq> []"
proof (induction rest arbitrary: st)
  case Nil
  then show ?case by simp
next
  case (Cons s rest)
  show ?case
  proof (cases "step_id s \<notin> visited st")
    case False
    with Cons show ?thesis by (simp add: cycle_view_def)
  next
    case True
    let ?st0 = "st\<lparr>path := []\<rparr>"
    obtain b st' where r: "dfs g (step_id s) ?st0 = (b, st')"
      by (cases "dfs g (step_id s) ?st0")
    have v0: "cycle_view ?st0 = cycle_view st" by (simp add: cycle_view_def)
    from dfs_hasCycle(1) [of g ss "step_id s" ?st0, THEN mp, OF G]
    have h: "hasCycle ss (step_id s) (cycle_view st) = (b, cycle_view st')"
      and c: "if b then cycles st' \<noteq> [] else cycles st' = cycles st"
      by (simp_all add: r v0 cong: if_cong)
    have nv: "step_id s \<notin> c_visited (cycle_view st)"
      using True by (simp add: cycle_view_def)
    show ?thesis
    proof (cases b)
      case True
      with c have "cycles st' \<noteq> []" by simp
      then have "cycles (dfs_roots g rest st') \<noteq> []"
        by (rule dfs_roots_cycles_kept [OF G])
      with True \<open>step_id s \<notin> visited st\<close> nv h r show ?thesis by simp
    next
      case False
      with c Cons.prems have "cycles st' = []" by simp
      then have "hasCycle_roots ss rest (cycle_view st') \<longleftrightarrow> cycles (dfs_roots g rest st') \<noteq> []"
        by (rule Cons.IH)
      with False \<open>step_id s \<notin> visited st\<close> nv h r show ?thesis by simp
    qed
  qed
qed

lemma builder_validate_iff:
  assumes "distinct (map step_id (b_steps b))"
  shows "fst (builder_validate b) \<longleftrightarrow>
     b_steps b \<noteq> [] \<and> detectCircularDependencies (b_steps b) = []"
proof -
  have G: "\<forall>n. graph_get (build_graph (b_steps b)) n = step_deps (b_steps b) n"
    using assms by (simp add: graph_get_build_graph)
  have "cycle_view dfs_init = \<lparr>c_visited = {}, c_recursionStack = {}\<rparr>"
    by (simp add: cycle_view_def dfs_init_def)
  with roots_agree [OF G, of dfs_init "b_steps b"]
  have "hasCycle_roots (b_steps b) (b_steps b) \<lparr>c_visited = {}, c_recursionStack = {}\<rparr> \<longleftrightarrow>
      detectCircularDependencies (b_steps b) \<noteq> []"
    by (simp add: detectCircularDependencies_def dfs_init_def)
  then show ?thesis
    by (simp add: builder_validate_def Let_def)
qed

lemma validateStep_codes:
  "e \<in> set (v_errors (validateStep s ss)) \<Longrightarrow> code e \<noteq> ''NO_STEPS'' \<and> code e \<noteq> ''CIRCULAR_DEPS''"
  by (auto simp: validateStep_def Let_def mk_error_def split: if_splits)

lemma validate_structure_iff:
  "(\<forall>e \<in> set (v_errors (validate w)). code e \<noteq> ''NO_STEPS'' \<and> code e \<noteq> ''CIRCULAR_DEPS'') \<longleftrightarrow>
     steps w \<noteq> [] \<and> detectCircularDependencies (steps w) = []"
proof (intro iffI conjI)
  assume a: "\<forall>e \<in> set (v_errors (validate w)). code e \<noteq> ''NO_STEPS'' \<and> code e \<noteq> ''CIRCULAR_DEPS''"
  show "steps w \<noteq> []"
  proof
    assume "steps w = []"
    then have "mk_error ''Workflow must have at least one step'' ''NO_STEPS'' None
        \<in> set (v_errors (validate w))"
      by (simp add: validate_def Let_def)
    with a show False by (fastforce simp: mk_error_def)
  qed
  show "detectCircularDependencies (steps w) = []"
  proof (rule ccontr)
    assume "detectCircularDependencies (steps w) \<noteq> []"
    then have "mk_error (''Circular dependencies detected: '' @
          join '', '' (detectCircularDependencies (steps w))) ''CIRCULAR_DEPS'' None
        \<in> set (v_errors (validate w))"
      by (simp add: validate_def Let_def)
    with a show False by (fastforce simp: mk_error_def)
  qed
next
  assume b: "steps w \<noteq> [] \<and> detectCircularDependencies (steps w) = []"
  show "\<forall>e \<in> set (v_errors (validate w)). code e \<noteq> ''NO_STEPS'' \<and> code e \<noteq> ''CIRCULAR_DEPS''"
  proof
    fix e assume "e \<in> set (v_errors (validate w))"
    with b have "e = mk_error ''Workflow must have an ID'' ''MISSING_ID'' None
       \<or> e = mk_error ''Workflow must have a name'' ''MISSING_NAME'' None
       \<or> (\<exists>s \<in> set (steps w). e \<in> set (v_errors (validateStep s (steps w))))"
      by (auto simp: validate_def Let_def split: if_splits)
    then show "code e \<noteq> ''NO_STEPS'' \<and> code e \<noteq> ''CIRCULAR_DEPS''"
      by (auto simp: mk_error_def dest: validateStep_codes)
  qed
qed

text \<open>
  Claim C8, as stated, fails: a custom step may name a dependency that no step has. The
  builder's \<open>validate\<close> accepts the builder, the validator rejects the built workflow
  with INVALID_DEPENDENCY.
\<close>

theorem builder_validate_counterexample:
  "fst (builder_validate (assemble None 0 [AddCustomStep ''lint'' None [''ghost'']]))
   \<and> \<not> valid (validate (build (assemble None 0 [AddCustomStep ''lint'' None [''ghost'']])))
   \<and> map code (v_errors (validate (build (assemble None 0 [AddCustomStep ''lint'' None [''ghost'']]))))
       = [''INVALID_DEPENDENCY'']"
  by code_simp

text \<open>
  Claim C8, amended. For every workflow assembled by the builder, the builder's
  \<open>validate\<close> agrees with the validator on the two checks it has: it reports valid
  exactly when the validator reports neither NO_STEPS nor CIRCULAR_DEPS (the two searches
  reach the same cycle verdict). Hence the builder reports valid whenever the validator
  does; the converse does not hold, since the builder checks neither names nor whether a
  dependency exists.
\<close>

theorem builder_validate_agreement:
  "(fst (builder_validate (assemble nm now calls)) \<longleftrightarrow>
      (\<forall>e \<in> set (v_errors (validate (build (assemble nm now calls)))).
          code e \<noteq> ''NO_STEPS'' \<and> code e \<noteq> ''CIRCULAR_DEPS''))
   \<and> (valid (validate (build (assemble nm now calls))) \<longrightarrow>
        fst (builder_validate (assemble nm now calls)))"
proof -
  let ?b = "assemble nm now calls"
  have s: "steps (build ?b) = b_steps ?b" by (simp add: build_def)
  have i: "fst (builder_validate ?b) \<longleftrightarrow>
     b_steps ?b \<noteq> [] \<and> detectCircularDependencies (b_steps ?b) = []"
    by (rule builder_validate_iff) (rule assemble_distinct)
  have a: "fst (builder_validate ?b) \<longleftrightarrow>
      (\<forall>e \<in> set (v_errors (validate (build ?b))).
          code e \<noteq> ''NO_STEPS'' \<and> code e \<noteq> ''CIRCULAR_DEPS'')"
    unfolding validate_structure_iff s by (rule i)
  have "valid (validate (build ?b)) \<longrightarrow> v_errors (validate (build ?b)) = []"
    by (simp add: validate_def Let_def)
  with a show ?thesis by auto
qed

theorem builder_validate_agreement_witness:
  "\<not> fst (builder_validate (assemble None 0 [AddCustomStep ''loop'' None [''step_1'']]))
   \<and> \<not> valid (validate (build (assemble None 0 [AddCustomStep ''loop'' None [''step_1'']])))"
proof -
  have n: "\<not> fst (builder_validate (assemble None 0 [AddCustomStep ''loop'' None [''step_1'']]))"
    by code_simp
  with builder_validate_agreement [of None 0 "[AddCustomStep ''loop'' None [''step_1'']]"]
  show ?thesis by blast
qed

end
